theory Spec2Isabelle
  imports Main "HOL-Library.Word"
begin

section \<open>The recording studio component\<close>

text \<open>
  The component \<^verbatim>\<open>RecordingStudio\<close> keeps a React state object
  (\<^verbatim>\<open>recordingState\<close>, \<^verbatim>\<open>micEnabled\<close>, \<^verbatim>\<open>captureMode\<close>) and four mutable
  references (\<^verbatim>\<open>mediaRecorderRef\<close>, \<^verbatim>\<open>streamRef\<close>, \<^verbatim>\<open>chunksRef\<close>,
  \<^verbatim>\<open>intervalRef\<close>). Its handlers call into the browser: interval timers, media
  streams and their tracks, media recorders, toasts and file downloads. The model is one
  record holding the component's fields followed by the part of the browser the handlers
  act on. Every handler is a function on that record.
\<close>

subsection \<open>Data\<close>

type_synonym byte = "8 word"

text \<open>A \<^verbatim>\<open>Blob\<close> is its sequence of bytes; \<^verbatim>\<open>blob.size\<close> is the length.\<close>

type_synonym blob = "byte list"

datatype captureMode = Screen | Window | Camera

datatype kind = Video | Audio

text \<open>A track is named by a number and has a kind; a stream is the list of its tracks.\<close>

type_synonym track = "nat \<times> kind"

type_synonym mediaStream = "track list"

text \<open>The \<^verbatim>\<open>state\<close> attribute of a \<^verbatim>\<open>MediaRecorder\<close>.\<close>

datatype recorderState = RInactive | RRecording | RPaused

datatype exn = InvalidStateError

datatype videoConstraint = VideoAny | VideoFacingUser

text \<open>
  \<^verbatim>\<open>startRecording\<close> is asynchronous: it suspends at each \<^verbatim>\<open>await\<close>. A suspended
  call is recorded with the values of \<^verbatim>\<open>captureMode\<close> and \<^verbatim>\<open>micEnabled\<close> its closure
  captured and with the request it waits for: \<^verbatim>\<open>getDisplayMedia\<close>, the microphone's
  \<^verbatim>\<open>getUserMedia\<close> (holding the display stream acquired before), or the camera's
  \<^verbatim>\<open>getUserMedia\<close> with its constraints.
\<close>

datatype await = AwaitDisplay | AwaitMicrophone mediaStream | AwaitCamera videoConstraint bool

type_synonym acquisition = "captureMode \<times> bool \<times> await"

text \<open>A toast: title, description, and whether the variant is destructive.\<close>

datatype toast = Toast string string bool

record studio =
  isRecording :: bool
  isPaused :: bool
  duration :: nat
  recordedBlob :: "blob option"
  micEnabled :: bool
  captureMode :: captureMode
  mediaRecorderRef :: "nat option"
  streamRef :: "mediaStream option"
  chunksRef :: "blob list"
  intervalRef :: "nat option"
  timers :: "nat list"
  nextTimer :: nat
  recorders :: "recorderState list"
  recorderSupported :: bool
  liveTracks :: "nat list"
  pending :: "acquisition list"
  toasts :: "toast list"
  downloads :: "(string \<times> blob) list"

text \<open>
  The browser's part: \<open>timers\<close> are the handles of the live intervals and
  \<open>nextTimer\<close> the next handle \<^verbatim>\<open>setInterval\<close> returns; \<open>recorders\<close> holds the state of
  every recorder constructed so far, a recorder being named by its position;
  \<open>recorderSupported\<close> says whether the constructor accepts the requested mime type;
  \<open>liveTracks\<close> are the tracks handed out that the component has not stopped;
  \<open>pending\<close> are the suspended calls of \<^verbatim>\<open>startRecording\<close>; \<open>toasts\<close> and \<open>downloads\<close> log what the user
  is shown and what is saved.
\<close>

definition initial :: "bool \<Rightarrow> studio" where
  "initial ok =
     \<lparr> isRecording = False, isPaused = False, duration = 0, recordedBlob = None,
       micEnabled = True, captureMode = Screen,
       mediaRecorderRef = None, streamRef = None, chunksRef = [], intervalRef = None,
       timers = [], nextTimer = 1, recorders = [], recorderSupported = ok,
       liveTracks = [], pending = [], toasts = [], downloads = [] \<rparr>"

subsection \<open>Status\<close>

text \<open>
  The component has no status field. \<^verbatim>\<open>getRecordingStatusBadge\<close> shows Paused when
  \<^verbatim>\<open>isRecording\<close> and \<^verbatim>\<open>isPaused\<close>, Recording when only \<^verbatim>\<open>isRecording\<close>, and Ready
  otherwise; Ready with a recorded blob (the download button is rendered) is Stopped, Ready
  without one is Idle.
\<close>

datatype status = Idle | Recording | Paused | Stopped

definition status :: "studio \<Rightarrow> status" where
  "status s =
     (if isRecording s then (if isPaused s then Paused else Recording)
      else if recordedBlob s \<noteq> None then Stopped else Idle)"

subsection \<open>The timer\<close>

definition startTimer :: "studio \<Rightarrow> studio" where
  "startTimer s =
     s\<lparr> intervalRef := Some (nextTimer s),
        timers := timers s @ [nextTimer s],
        nextTimer := Suc (nextTimer s) \<rparr>"

definition stopTimer :: "studio \<Rightarrow> studio" where
  "stopTimer s =
     (case intervalRef s of
        None \<Rightarrow> s
      | Some t \<Rightarrow> s\<lparr> timers := removeAll t (timers s), intervalRef := None \<rparr>)"

text \<open>
  \<^verbatim>\<open>setInterval\<close> returns a positive handle, so a handle held in \<^verbatim>\<open>intervalRef\<close>
  is truthy. One firing of an interval is the functional update
  \<^verbatim>\<open>duration: prev.duration + 1\<close>.
\<close>

definition tick :: "studio \<Rightarrow> studio" where
  "tick s = s\<lparr> duration := duration s + 1 \<rparr>"

subsection \<open>The recorder of the browser\<close>

text \<open>
  \<^verbatim>\<open>pause()\<close> and \<^verbatim>\<open>resume()\<close> throw on an inactive recorder and do nothing when
  the recorder is already in the state asked for; \<^verbatim>\<open>stop()\<close> does nothing on an
  inactive recorder and otherwise makes it inactive and queues the task that fires
  \<^verbatim>\<open>dataavailable\<close> and then \<^verbatim>\<open>stop\<close>. A name that no recorder carries reads as
  inactive.
\<close>

definition recorderState :: "recorderState list \<Rightarrow> nat \<Rightarrow> recorderState" where
  "recorderState rs r = (if r < length rs then rs ! r else RInactive)"

definition recorder_pause :: "nat \<Rightarrow> studio \<Rightarrow> exn + studio" where
  "recorder_pause r s =
     (case recorderState (recorders s) r of
        RInactive \<Rightarrow> Inl InvalidStateError
      | RRecording \<Rightarrow> Inr (s\<lparr> recorders := (recorders s)[r := RPaused] \<rparr>)
      | RPaused \<Rightarrow> Inr s)"

definition recorder_resume :: "nat \<Rightarrow> studio \<Rightarrow> exn + studio" where
  "recorder_resume r s =
     (case recorderState (recorders s) r of
        RInactive \<Rightarrow> Inl InvalidStateError
      | RRecording \<Rightarrow> Inr s
      | RPaused \<Rightarrow> Inr (s\<lparr> recorders := (recorders s)[r := RRecording] \<rparr>))"

definition recorder_stop :: "nat \<Rightarrow> studio \<Rightarrow> studio" where
  "recorder_stop r s =
     (case recorderState (recorders s) r of
        RInactive \<Rightarrow> s
      | _ \<Rightarrow> s\<lparr> recorders := (recorders s)[r := RInactive] \<rparr>)"

subsection \<open>Starting\<close>

definition getMediaConstraints :: "captureMode \<Rightarrow> bool \<Rightarrow> videoConstraint \<times> bool" where
  "getMediaConstraints m mic =
     (if m = Screen then (VideoAny, mic)
      else if m = Camera then (VideoFacingUser, mic)
      else (VideoAny, mic))"

text \<open>The call up to its first \<^verbatim>\<open>await\<close>: the request is issued, nothing else happens.\<close>

definition startRecording :: "studio \<Rightarrow> studio" where
  "startRecording s =
     s\<lparr> pending := pending s @
          [(captureMode s, micEnabled s,
            if captureMode s = Screen \<or> captureMode s = Window then AwaitDisplay
            else (case getMediaConstraints (captureMode s) (micEnabled s) of
                    (v, a) \<Rightarrow> AwaitCamera v a))] \<rparr>"

text \<open>The \<^verbatim>\<open>catch\<close> block.\<close>

definition startRecording_catch :: "studio \<Rightarrow> studio" where
  "startRecording_catch s =
     s\<lparr> toasts := toasts s @
          [Toast ''Recording Failed''
                 ''Failed to start recording. Please check permissions.'' True] \<rparr>"

text \<open>\<^verbatim>\<open>stream.addTrack\<close>: a track already in the stream is not added again.\<close>

definition addTrack :: "mediaStream \<Rightarrow> track \<Rightarrow> mediaStream" where
  "addTrack st t = (if t \<in> set st then st else st @ [t])"

definition modeName :: "captureMode \<Rightarrow> string" where
  "modeName m = (case m of Screen \<Rightarrow> ''screen'' | Window \<Rightarrow> ''window'' | Camera \<Rightarrow> ''camera'')"

text \<open>
  The call from \<^verbatim>\<open>streamRef.current = stream\<close> to its end, once the stream is
  there. The constructor of the recorder throws when the mime type is not supported, which
  the \<^verbatim>\<open>catch\<close> block receives after both references have been assigned.
\<close>

definition startRecording_finish :: "captureMode \<Rightarrow> mediaStream \<Rightarrow> studio \<Rightarrow> studio" where
  "startRecording_finish m st s =
     (let s1 = s\<lparr> streamRef := Some st, chunksRef := [] \<rparr> in
      if \<not> recorderSupported s1 then startRecording_catch s1
      else
        let s2 = s1\<lparr> mediaRecorderRef := Some (length (recorders s1)),
                     recorders := recorders s1 @ [RRecording] \<rparr>;
            s3 = s2\<lparr> isRecording := True, isPaused := False, duration := 0,
                     recordedBlob := None \<rparr>;
            s4 = startTimer s3
        in s4\<lparr> toasts := toasts s4 @
                 [Toast ''Recording Started'' (modeName m @ '' recording is now active'') False] \<rparr>)"

text \<open>
  The suspended call number \<open>i\<close> continues with the outcome of its request: a stream, or
  nothing when the request is rejected (permission denied, source unavailable). A stream
  handed out makes its tracks live. There is no such call when \<open>i\<close> is out of range.
\<close>

definition startRecording_resume :: "nat \<Rightarrow> mediaStream option \<Rightarrow> studio \<Rightarrow> studio option" where
  "startRecording_resume i out s =
     (if length (pending s) \<le> i then None
      else
        (case pending s ! i of (m, mic, aw) \<Rightarrow>
          (let s0 = s\<lparr> pending := take i (pending s) @ drop (Suc i) (pending s) \<rparr> in
           case out of
             None \<Rightarrow> Some (startRecording_catch s0)
           | Some st \<Rightarrow>
               (let s1 = s0\<lparr> liveTracks := liveTracks s0 @ map fst st \<rparr> in
                case aw of
                  AwaitDisplay \<Rightarrow>
                    (if mic
                     then Some (s1\<lparr> pending := pending s1 @ [(m, mic, AwaitMicrophone st)] \<rparr>)
                     else Some (startRecording_finish m st s1))
                | AwaitMicrophone ds \<Rightarrow>
                    (case filter (\<lambda>t. snd t = Audio) st of
                       [] \<Rightarrow> Some (startRecording_catch s1)
                     | a # _ \<Rightarrow> Some (startRecording_finish m (addTrack ds a) s1))
                | AwaitCamera v a \<Rightarrow> Some (startRecording_finish m st s1)))))"

subsection \<open>The recorder's notifications\<close>

definition ondataavailable :: "blob \<Rightarrow> studio \<Rightarrow> studio" where
  "ondataavailable d s =
     (if length d > 0 then s\<lparr> chunksRef := chunksRef s @ [d] \<rparr> else s)"

definition onstop :: "studio \<Rightarrow> studio" where
  "onstop s =
     (let s1 = s\<lparr> recordedBlob := Some (concat (chunksRef s)) \<rparr> in
      case streamRef s1 of
        None \<Rightarrow> s1
      | Some st \<Rightarrow>
          s1\<lparr> liveTracks := filter (\<lambda>t. t \<notin> set (map fst st)) (liveTracks s1),
              streamRef := None \<rparr>)"

subsection \<open>Pause, resume, stop, download\<close>

text \<open>
  A call of the recorder that throws is the first statement of its handler, so a thrown
  exception leaves the state as it was: the handler's result is the exception alone.
\<close>

definition pauseRecording :: "studio \<Rightarrow> exn + studio" where
  "pauseRecording s =
     (case mediaRecorderRef s of
        None \<Rightarrow> Inr s
      | Some r \<Rightarrow>
          if \<not> isRecording s then Inr s
          else if isPaused s then
            (case recorder_resume r s of
               Inl e \<Rightarrow> Inl e
             | Inr s1 \<Rightarrow>
                 (let s2 = startTimer s1; s3 = s2\<lparr> isPaused := False \<rparr>
                  in Inr (s3\<lparr> toasts := toasts s3 @ [Toast ''Recording Resumed'' [] False] \<rparr>)))
          else
            (case recorder_pause r s of
               Inl e \<Rightarrow> Inl e
             | Inr s1 \<Rightarrow>
                 (let s2 = stopTimer s1; s3 = s2\<lparr> isPaused := True \<rparr>
                  in Inr (s3\<lparr> toasts := toasts s3 @ [Toast ''Recording Paused'' [] False] \<rparr>))))"

definition stopRecording :: "studio \<Rightarrow> studio" where
  "stopRecording s =
     (case mediaRecorderRef s of
        None \<Rightarrow> s
      | Some r \<Rightarrow>
          (let s1 = recorder_stop r s;
               s2 = stopTimer s1;
               s3 = s2\<lparr> isRecording := False, isPaused := False \<rparr>
           in s3\<lparr> toasts := toasts s3 @
                   [Toast ''Recording Stopped'' ''Your recording is ready for download'' False] \<rparr>))"

text \<open>
  The argument is \<^verbatim>\<open>new Date().toISOString()\<close>. The anchor's click saves the bytes of
  the blob behind the object URL under the suggested name.
\<close>

definition downloadRecording :: "string \<Rightarrow> studio \<Rightarrow> studio" where
  "downloadRecording now s =
     (case recordedBlob s of
        None \<Rightarrow> s
      | Some b \<Rightarrow>
          s\<lparr> downloads := downloads s @ [(''recording-'' @ take 19 now @ ''.webm'', b)],
             toasts := toasts s @
               [Toast ''Download Started'' ''Your recording is being downloaded'' False] \<rparr>)"

subsection \<open>Events\<close>

text \<open>
  What can happen to the component. The controls are offered as the component renders
  them: the start button and the capture and microphone buttons while \<^verbatim>\<open>isRecording\<close>
  is false, the pause/resume button and the stop button while it is true, the download
  button while a blob is recorded. A suspended start continues when its request settles.
  An interval fires while it is live; a recorder delivers data while it records. The task
  a stopping recorder queues (its last data, then \<^verbatim>\<open>stop\<close>) runs before any later
  event, so it is part of the stop click, which carries the last data. An active recorder
  also stops on its own, when the tracks it records end (the user ends the sharing in the
  browser, a device is removed): it becomes inactive and delivers its last data and
  \<^verbatim>\<open>stop\<close>, so that \<^verbatim>\<open>onstop\<close> runs with no stop handler before it.
\<close>

datatype event =
    StartClick
  | Settle nat "mediaStream option"
  | PauseClick
  | StopClick blob
  | Tick nat
  | DataAvailable nat blob
  | DownloadClick string
  | SetCaptureMode captureMode
  | ToggleMic
  | RecorderEnded nat blob

text \<open>The state of the recorder the component refers to, inactive when there is none.\<close>

fun referred :: "nat option \<Rightarrow> recorderState list \<Rightarrow> recorderState" where
  "referred None rs = RInactive"
| "referred (Some r) rs = recorderState rs r"

definition currentRecorder :: "studio \<Rightarrow> recorderState" where
  "currentRecorder s = referred (mediaRecorderRef s) (recorders s)"

definition stopTaskQueued :: "studio \<Rightarrow> bool" where
  "stopTaskQueued s \<longleftrightarrow> currentRecorder s \<noteq> RInactive"

definition recorderEnded :: "nat \<Rightarrow> blob \<Rightarrow> studio \<Rightarrow> studio" where
  "recorderEnded r d s =
     onstop (ondataavailable d (s\<lparr> recorders := (recorders s)[r := RInactive] \<rparr>))"

definition stopRequest :: "blob \<Rightarrow> studio \<Rightarrow> studio" where
  "stopRequest d s =
     (if stopTaskQueued s then onstop (ondataavailable d (stopRecording s))
      else stopRecording s)"

fun step :: "studio \<Rightarrow> event \<Rightarrow> studio option" where
  "step s StartClick = (if isRecording s then None else Some (startRecording s))"
| "step s (Settle i out) = startRecording_resume i out s"
| "step s PauseClick =
     (if isRecording s
      then (case pauseRecording s of Inl e \<Rightarrow> Some s | Inr s' \<Rightarrow> Some s')
      else None)"
| "step s (StopClick d) = (if isRecording s then Some (stopRequest d s) else None)"
| "step s (Tick t) = (if t \<in> set (timers s) then Some (tick s) else None)"
| "step s (DataAvailable r d) =
     (if recorderState (recorders s) r = RRecording then Some (ondataavailable d s) else None)"
| "step s (DownloadClick now) =
     (if recordedBlob s \<noteq> None then Some (downloadRecording now s) else None)"
| "step s (SetCaptureMode m) =
     (if isRecording s then None else Some (s\<lparr> captureMode := m \<rparr>))"
| "step s ToggleMic =
     (if isRecording s then None else Some (s\<lparr> micEnabled := \<not> micEnabled s \<rparr>))"
| "step s (RecorderEnded r d) =
     (if recorderState (recorders s) r \<noteq> RInactive then Some (recorderEnded r d s) else None)"

text \<open>Running a list of events; an event that cannot happen is skipped.\<close>

fun exec :: "studio \<Rightarrow> event list \<Rightarrow> studio" where
  "exec s [] = s"
| "exec s (e # es) = exec (case step s e of None \<Rightarrow> s | Some s' \<Rightarrow> s') es"

inductive reachable :: "studio \<Rightarrow> bool" where
  reachable_initial: "reachable (initial ok)"
| reachable_step: "reachable s \<Longrightarrow> step s e = Some s' \<Longrightarrow> reachable s'"

text \<open>
  A session is serial when no start button is clicked while a start is still suspended.
\<close>

definition step_serial :: "studio \<Rightarrow> event \<Rightarrow> studio option" where
  "step_serial s e = (if e = StartClick \<and> pending s \<noteq> [] then None else step s e)"

fun exec_serial :: "studio \<Rightarrow> event list \<Rightarrow> studio" where
  "exec_serial s [] = s"
| "exec_serial s (e # es) = exec_serial (case step_serial s e of None \<Rightarrow> s | Some s' \<Rightarrow> s') es"

inductive serial :: "studio \<Rightarrow> bool" where
  serial_initial: "serial (initial ok)"
| serial_step: "serial s \<Longrightarrow> step_serial s e = Some s' \<Longrightarrow> serial s'"

subsection \<open>Invariants\<close>

text \<open>
  What holds of the component in every reachable state: while \<^verbatim>\<open>isRecording\<close> there
  is a recorder referred to, which is in the state \<^verbatim>\<open>isPaused\<close> tells unless it has
  stopped on its own, and then a blob is recorded; \<^verbatim>\<open>isPaused\<close> only while
  \<^verbatim>\<open>isRecording\<close>; a recorder exists only once a start has succeeded; no chunk is
  empty.
\<close>

definition inv :: "studio \<Rightarrow> bool" where
  "inv s \<longleftrightarrow>
     (isRecording s \<longrightarrow>
        mediaRecorderRef s \<noteq> None \<and>
        (currentRecorder s = RInactive \<and> recordedBlob s \<noteq> None \<or>
         currentRecorder s = (if isPaused s then RPaused else RRecording))) \<and>
     (isPaused s \<longrightarrow> isRecording s) \<and>
     (mediaRecorderRef s \<noteq> None \<longrightarrow> isRecording s \<or> recordedBlob s \<noteq> None) \<and>
     (\<forall>c \<in> set (chunksRef s). c \<noteq> [])"

text \<open>
  What holds in serial sessions: the live intervals are exactly the one whose handle
  \<^verbatim>\<open>intervalRef\<close> holds, there is one exactly while recording and not paused, and at
  most one start is suspended, none while recording.
\<close>

definition tracked :: "studio \<Rightarrow> bool" where
  "tracked s \<longleftrightarrow>
     timers s = (case intervalRef s of None \<Rightarrow> [] | Some t \<Rightarrow> [t]) \<and>
     (intervalRef s \<noteq> None \<longleftrightarrow> isRecording s \<and> \<not> isPaused s) \<and>
     length (pending s) \<le> 1 \<and>
     (isRecording s \<longrightarrow> pending s = [])"

text \<open>
  Also in serial sessions: the only recorder that can be active is the one referred to,
  while \<^verbatim>\<open>isRecording\<close>; as long as it is active the stream is held and no blob is
  recorded; once it has stopped on its own the stream is released and the blob is the
  concatenation of the chunks.
\<close>

definition single :: "studio \<Rightarrow> bool" where
  "single s \<longleftrightarrow>
     (\<forall>r. recorderState (recorders s) r \<noteq> RInactive \<longrightarrow>
          isRecording s \<and> mediaRecorderRef s = Some r) \<and>
     (isRecording s \<and> currentRecorder s \<noteq> RInactive \<longrightarrow>
        streamRef s \<noteq> None \<and> recordedBlob s = None) \<and>
     (isRecording s \<and> currentRecorder s = RInactive \<longrightarrow>
        streamRef s = None \<and> recordedBlob s = Some (concat (chunksRef s)))"

text \<open>
  A step of a suspended start either leaves elapsed time, recorded blob and
  \<^verbatim>\<open>isRecording\<close> as they were, or begins a session.
\<close>

definition unchanged_or_started :: "studio \<Rightarrow> studio \<Rightarrow> bool" where
  "unchanged_or_started s s' \<longleftrightarrow>
     (duration s' = duration s \<and> recordedBlob s' = recordedBlob s \<and>
      isRecording s' = isRecording s) \<or>
     (duration s' = 0 \<and> recordedBlob s' = None \<and> isRecording s' \<and> \<not> isPaused s')"

subsection \<open>Exporting the transcript\<close>

text \<open>
  The later version of the component adds \<^verbatim>\<open>transcript\<close>, \<^verbatim>\<open>meetingPoints\<close> and
  \<^verbatim>\<open>isProcessing\<close> to \<^verbatim>\<open>recordingState\<close>. Its handlers above are the same, but
  for \<^verbatim>\<open>stopRecording\<close>, which there also schedules the processing that fills the
  transcript; that processing is not modelled, the transcript being a field of the state.
  \<^verbatim>\<open>transcribeAudio\<close> resolves, after a delay, to a literal text, whatever the blob.
  \<^verbatim>\<open>downloadTranscript\<close> takes \<^verbatim>\<open>new Date().toLocaleString()\<close> and
  \<^verbatim>\<open>new Date().toISOString()\<close> as arguments; an empty string is falsy, so an empty
  transcript takes the first branch, which writes its own literal text. The saved text
  files are logged in \<open>textDownloads\<close>. The console output is left out.
\<close>

definition newline :: char where
  "newline = CHR 0x0A"

definition sampleTranscript :: string where
  "sampleTranscript =
     ''Welcome to today's meeting. We discussed the following agenda items:'' @
     [newline, newline] @
     ''First, we reviewed the quarterly performance metrics and found that revenue increased by 15% compared to last quarter.'' @
     [newline, newline] @
     ''Second, we outlined the upcoming product launch strategy for our new mobile application, which is scheduled for release in Q2.'' @
     [newline, newline] @
     ''Third, we addressed team restructuring plans and the hiring of three new developers for the backend team.'' @
     [newline, newline] @
     ''Finally, we established action items for the next sprint and set deadlines for deliverables.'' @
     [newline, newline] @
     ''Thank you all for your participation and productive discussions.''"

definition transcribeAudio :: "blob \<Rightarrow> string" where
  "transcribeAudio audioBlob =
     ''Welcome to today's meeting. We discussed the following agenda items:'' @
     [newline, newline] @
     ''First, we reviewed the quarterly performance metrics and found that revenue increased by 15% compared to last quarter.'' @
     [newline, newline] @
     ''Second, we outlined the upcoming product launch strategy for our new mobile application, which is scheduled for release in Q2.'' @
     [newline, newline] @
     ''Third, we addressed team restructuring plans and the hiring of three new developers for the backend team.'' @
     [newline, newline] @
     ''Finally, we established action items for the next sprint and set deadlines for deliverables.'' @
     [newline, newline] @
     ''Thank you all for your participation and productive discussions.''"

record studioT = studio +
  transcript :: string
  meetingPoints :: "string list"
  isProcessing :: bool
  textDownloads :: "(string \<times> string) list"

definition transcriptFile :: "string \<Rightarrow> string \<Rightarrow> string \<Rightarrow> string \<times> string" where
  "transcriptFile loc now body =
     (''transcript-'' @ take 19 now @ ''.txt'',
      ''Meeting Transcript'' @ [newline] @ ''Generated on: '' @ loc @ [newline, newline] @ body)"

definition downloadTranscript :: "string \<Rightarrow> string \<Rightarrow> studioT \<Rightarrow> studioT" where
  "downloadTranscript loc now s =
     (if transcript s = [] then
        s\<lparr> textDownloads := textDownloads s @ [transcriptFile loc now sampleTranscript],
           toasts := toasts s @
             [Toast ''Download Started'' ''Sample transcript file is being downloaded'' False] \<rparr>
      else
        s\<lparr> textDownloads := textDownloads s @ [transcriptFile loc now (transcript s)],
           toasts := toasts s @
             [Toast ''Download Started'' ''Transcript file is being downloaded'' False] \<rparr>)"

definition initialT :: studioT where
  "initialT = studio.extend (initial True)
     (studioT.fields [] [] False [])"

subsection \<open>Example sessions\<close>

text \<open>
  Sessions in the default configuration (screen capture with the microphone): one
  recording after a pause and a resume, one paused, one stopped, one stopped with a new
  start suspended. A camera session whose start button was clicked twice before either
  acquisition settled, both then granted, and the same session paused. A session whose
  recorder stopped on its own, and the session started twice whose first recorder did. A
  start in the default configuration whose screen is granted and microphone denied.
\<close>

definition recording_example :: studio where
  "recording_example =
     exec_serial (initial True)
       [StartClick, Settle 0 (Some [(1, Video)]), Settle 0 (Some [(2, Audio)]),
        Tick 1, DataAvailable 0 [1, 2], PauseClick, PauseClick, Tick 2]"

definition paused_example :: studio where
  "paused_example =
     exec_serial (initial True)
       [StartClick, Settle 0 (Some [(1, Video)]), Settle 0 (Some [(2, Audio)]),
        Tick 1, DataAvailable 0 [1, 2], PauseClick]"

definition stopped_example :: studio where
  "stopped_example =
     exec_serial (initial True)
       [StartClick, Settle 0 (Some [(1, Video)]), Settle 0 (Some [(2, Audio)]),
        Tick 1, DataAvailable 0 [1, 2], StopClick [3]]"


definition overlapping_example :: studio where
  "overlapping_example =
     exec (initial True)
       [SetCaptureMode Camera, StartClick, StartClick,
        Settle 0 (Some [(1, Video), (2, Audio)]), Settle 0 (Some [(3, Video), (4, Audio)])]"

definition overlapping_paused_example :: studio where
  "overlapping_paused_example =
     exec (initial True)
       [SetCaptureMode Camera, StartClick, StartClick,
        Settle 0 (Some [(1, Video), (2, Audio)]), Settle 0 (Some [(3, Video), (4, Audio)]),
        PauseClick]"

definition ended_example :: studio where
  "ended_example =
     exec_serial (initial True)
       [StartClick, Settle 0 (Some [(1, Video)]), Settle 0 (Some [(2, Audio)]),
        Tick 1, DataAvailable 0 [1, 2], RecorderEnded 0 [3]]"


definition denied_example :: studio where
  "denied_example =
     exec (initial True) [StartClick, Settle 0 (Some [(1, Video)]), Settle 0 None]"

section \<open>Properties\<close>

subsection \<open>The invariant of all sessions\<close>

lemma recorderState_append:
  "recorderState (rs @ [x]) r = (if r = length rs then x else recorderState rs r)"
  by (simp add: recorderState_def nth_append)

lemma recorderState_update:
  "recorderState (rs[r := x]) k = (if k = r \<and> r < length rs then x else recorderState rs k)"
  by (simp add: recorderState_def)

lemma current_active:
  assumes "currentRecorder s \<noteq> RInactive"
  obtains r where "mediaRecorderRef s = Some r" "r < length (recorders s)"
    "recorders s ! r = currentRecorder s"
  using assms
  by (cases "mediaRecorderRef s")
     (auto simp: currentRecorder_def recorderState_def split: if_splits)

lemma inv_initial: "inv (initial ok)"
  by (simp add: inv_def initial_def currentRecorder_def)

lemma inv_startRecording: "inv s \<Longrightarrow> inv (startRecording s)"
  by (simp add: inv_def startRecording_def currentRecorder_def)

lemma inv_catch: "inv s \<Longrightarrow> inv (startRecording_catch s)"
  by (simp add: inv_def startRecording_catch_def currentRecorder_def)

lemma inv_finish: "inv s \<Longrightarrow> inv (startRecording_finish m st s)"
  by (simp add: inv_def startRecording_finish_def startRecording_catch_def startTimer_def
      recorderState_append currentRecorder_def Let_def)

lemma inv_pending: "inv s \<Longrightarrow> inv (s\<lparr>pending := p\<rparr>)"
  by (simp add: inv_def currentRecorder_def)

lemma inv_liveTracks: "inv s \<Longrightarrow> inv (s\<lparr>liveTracks := p\<rparr>)"
  by (simp add: inv_def currentRecorder_def)

lemma inv_resume: "inv s \<Longrightarrow> startRecording_resume i out s = Some s' \<Longrightarrow> inv s'"
  unfolding startRecording_resume_def Let_def
  by (simp split: if_splits prod.splits option.splits await.splits list.splits)
     (auto intro!: inv_catch inv_finish inv_pending inv_liveTracks)

lemma pause_noop: "\<not> isRecording s \<Longrightarrow> pauseRecording s = Inr s"
  by (simp add: pauseRecording_def split: option.splits)

lemma pause_pauses:
  assumes "isRecording s" "\<not> isPaused s" "mediaRecorderRef s = Some r"
    "currentRecorder s = RRecording"
  shows "pauseRecording s =
     Inr ((stopTimer (s\<lparr>recorders := (recorders s)[r := RPaused]\<rparr>))
           \<lparr>isPaused := True,
            toasts := toasts s @ [Toast ''Recording Paused'' [] False]\<rparr>)"
  using assms
  by (simp add: pauseRecording_def recorder_pause_def currentRecorder_def stopTimer_def
      split: option.splits)

lemma pause_resumes:
  assumes "isRecording s" "isPaused s" "mediaRecorderRef s = Some r"
    "currentRecorder s = RPaused"
  shows "pauseRecording s =
     Inr ((startTimer (s\<lparr>recorders := (recorders s)[r := RRecording]\<rparr>))
           \<lparr>isPaused := False,
            toasts := toasts s @ [Toast ''Recording Resumed'' [] False]\<rparr>)"
  using assms
  by (simp add: pauseRecording_def recorder_resume_def currentRecorder_def startTimer_def)

lemma pause_throws:
  assumes "isRecording s" "mediaRecorderRef s \<noteq> None" "currentRecorder s = RInactive"
  shows "pauseRecording s = Inl InvalidStateError"
  using assms
  by (cases "mediaRecorderRef s")
     (simp_all add: pauseRecording_def recorder_pause_def recorder_resume_def
        currentRecorder_def)

lemma pause_cases:
  assumes i: "inv s" and rec: "isRecording s"
  obtains (pauses) r where "mediaRecorderRef s = Some r" "r < length (recorders s)"
    "\<not> isPaused s" "currentRecorder s = RRecording"
    "pauseRecording s =
       Inr ((stopTimer (s\<lparr>recorders := (recorders s)[r := RPaused]\<rparr>))
             \<lparr>isPaused := True,
              toasts := toasts s @ [Toast ''Recording Paused'' [] False]\<rparr>)"
  | (resumes) r where "mediaRecorderRef s = Some r" "r < length (recorders s)"
    "isPaused s" "currentRecorder s = RPaused"
    "pauseRecording s =
       Inr ((startTimer (s\<lparr>recorders := (recorders s)[r := RRecording]\<rparr>))
             \<lparr>isPaused := False,
              toasts := toasts s @ [Toast ''Recording Resumed'' [] False]\<rparr>)"
  | (throws) "currentRecorder s = RInactive" "recordedBlob s \<noteq> None"
    "pauseRecording s = Inl InvalidStateError"
proof (cases "currentRecorder s = RInactive")
  case True
  have m: "mediaRecorderRef s \<noteq> None" using i rec by (simp add: inv_def)
  have b: "recordedBlob s \<noteq> None" using i rec True by (auto simp: inv_def split: if_splits)
  show thesis using throws [OF True b pause_throws [OF rec m True]] .
next
  case False
  then obtain r where r: "mediaRecorderRef s = Some r" and l: "r < length (recorders s)"
    by (rule current_active)
  show thesis
  proof (cases "isPaused s")
    case p: False
    have c: "currentRecorder s = RRecording" using i rec False p by (simp add: inv_def)
    show thesis using pauses [OF r l p c pause_pauses [OF rec p r c]] .
  next
    case p: True
    have c: "currentRecorder s = RPaused" using i rec False p by (simp add: inv_def)
    show thesis using resumes [OF r l p c pause_resumes [OF rec p r c]] .
  qed
qed

lemma inv_pause:
  assumes i: "inv s" and p: "pauseRecording s = Inr s'"
  shows "inv s'"
proof (cases "isRecording s")
  case False
  then show ?thesis using i p by (simp add: pause_noop)
next
  case True
  from i True show ?thesis
  proof (cases rule: pause_cases)
    case (pauses r)
    have e: "s' = (stopTimer (s\<lparr>recorders := (recorders s)[r := RPaused]\<rparr>))
           \<lparr>isPaused := True,
            toasts := toasts s @ [Toast ''Recording Paused'' [] False]\<rparr>"
      using p pauses by simp
    show ?thesis unfolding e using i pauses True
      by (simp add: inv_def stopTimer_def currentRecorder_def recorderState_update
          split: option.splits)
  next
    case (resumes r)
    have e: "s' = (startTimer (s\<lparr>recorders := (recorders s)[r := RRecording]\<rparr>))
           \<lparr>isPaused := False,
            toasts := toasts s @ [Toast ''Recording Resumed'' [] False]\<rparr>"
      using p resumes by simp
    show ?thesis unfolding e using i resumes True
      by (simp add: inv_def startTimer_def currentRecorder_def recorderState_update)
  next
    case throws
    then show ?thesis using p by simp
  qed
qed

lemma inv_ondata: "inv s \<Longrightarrow> inv (ondataavailable d s)"
  by (simp add: inv_def ondataavailable_def currentRecorder_def)

lemma stopRecording_active:
  assumes "mediaRecorderRef s = Some r" "r < length (recorders s)"
    "recorders s ! r \<noteq> RInactive"
  shows "stopRecording s =
     (stopTimer (s\<lparr>recorders := (recorders s)[r := RInactive]\<rparr>))
       \<lparr>isRecording := False, isPaused := False,
        toasts := toasts s @
          [Toast ''Recording Stopped'' ''Your recording is ready for download'' False]\<rparr>"
  using assms
  by (simp add: stopRecording_def recorder_stop_def recorderState_def stopTimer_def
      split: recorderState.splits option.splits)

lemma stopRecording_inactive:
  assumes "mediaRecorderRef s = Some r" "currentRecorder s = RInactive"
  shows "stopRecording s =
     (stopTimer s)
       \<lparr>isRecording := False, isPaused := False,
        toasts := toasts s @
          [Toast ''Recording Stopped'' ''Your recording is ready for download'' False]\<rparr>"
  using assms
  by (simp add: stopRecording_def recorder_stop_def currentRecorder_def stopTimer_def Let_def
      split: option.splits)

lemmas task_defs = onstop_def ondataavailable_def stopTimer_def Let_def

lemma stopRequest_fields:
  assumes "currentRecorder s \<noteq> RInactive"
  shows "isRecording (stopRequest d s) = False"
    and "isPaused (stopRequest d s) = False"
    and "recordedBlob (stopRequest d s) = Some (concat (chunksRef s) @ d)"
    and "chunksRef (stopRequest d s) = chunksRef s @ (if d = [] then [] else [d])"
    and "streamRef (stopRequest d s) = None"
    and "intervalRef (stopRequest d s) = None"
    and "timers (stopRequest d s) =
           (case intervalRef s of None \<Rightarrow> timers s | Some t \<Rightarrow> removeAll t (timers s))"
    and "liveTracks (stopRequest d s) =
           (case streamRef s of None \<Rightarrow> liveTracks s
            | Some st \<Rightarrow> filter (\<lambda>t. t \<notin> set (map fst st)) (liveTracks s))"
    and "mediaRecorderRef (stopRequest d s) = mediaRecorderRef s"
    and "pending (stopRequest d s) = pending s"
    and "duration (stopRequest d s) = duration s"
    and "recorderState (recorders (stopRequest d s)) k =
           (if mediaRecorderRef s = Some k then RInactive else recorderState (recorders s) k)"
proof -
  obtain r where r0: "mediaRecorderRef s = Some r" "r < length (recorders s)"
    and rr: "recorders s ! r = currentRecorder s"
    by (rule current_active [OF assms])
  have r: "mediaRecorderRef s = Some r" "r < length (recorders s)"
    "recorders s ! r \<noteq> RInactive"
    using r0 rr assms by simp_all
  have q: "stopRequest d s = onstop (ondataavailable d (stopRecording s))"
    using assms by (simp add: stopRequest_def stopTaskQueued_def)
  note e = stopRecording_active [OF r]
  show "isRecording (stopRequest d s) = False"
    unfolding q e by (simp add: task_defs split: option.splits)
  show "isPaused (stopRequest d s) = False"
    unfolding q e by (simp add: task_defs split: option.splits)
  show "recordedBlob (stopRequest d s) = Some (concat (chunksRef s) @ d)"
    unfolding q e by (simp add: task_defs split: option.splits)
  show "chunksRef (stopRequest d s) = chunksRef s @ (if d = [] then [] else [d])"
    unfolding q e by (simp add: task_defs split: option.splits)
  show "streamRef (stopRequest d s) = None"
    unfolding q e by (simp add: task_defs split: option.splits)
  show "intervalRef (stopRequest d s) = None"
    unfolding q e by (simp add: task_defs split: option.splits)
  show "timers (stopRequest d s) =
           (case intervalRef s of None \<Rightarrow> timers s | Some t \<Rightarrow> removeAll t (timers s))"
    unfolding q e by (simp add: task_defs split: option.splits)
  show "liveTracks (stopRequest d s) =
           (case streamRef s of None \<Rightarrow> liveTracks s
            | Some st \<Rightarrow> filter (\<lambda>t. t \<notin> set (map fst st)) (liveTracks s))"
    unfolding q e by (simp add: task_defs split: option.splits)
  show "mediaRecorderRef (stopRequest d s) = mediaRecorderRef s"
    unfolding q e by (simp add: task_defs split: option.splits)
  show "pending (stopRequest d s) = pending s"
    unfolding q e by (simp add: task_defs split: option.splits)
  show "duration (stopRequest d s) = duration s"
    unfolding q e by (simp add: task_defs split: option.splits)
  show "recorderState (recorders (stopRequest d s)) k =
           (if mediaRecorderRef s = Some k then RInactive else recorderState (recorders s) k)"
    unfolding q e using r
    by (auto simp: task_defs recorderState_update split: option.splits)
qed

lemma stopRequest_inactive_fields:
  assumes "currentRecorder s = RInactive" "mediaRecorderRef s \<noteq> None"
  shows "isRecording (stopRequest d s) = False"
    and "isPaused (stopRequest d s) = False"
    and "recordedBlob (stopRequest d s) = recordedBlob s"
    and "chunksRef (stopRequest d s) = chunksRef s"
    and "streamRef (stopRequest d s) = streamRef s"
    and "intervalRef (stopRequest d s) = None"
    and "timers (stopRequest d s) =
           (case intervalRef s of None \<Rightarrow> timers s | Some t \<Rightarrow> removeAll t (timers s))"
    and "liveTracks (stopRequest d s) = liveTracks s"
    and "mediaRecorderRef (stopRequest d s) = mediaRecorderRef s"
    and "pending (stopRequest d s) = pending s"
    and "duration (stopRequest d s) = duration s"
    and "recorders (stopRequest d s) = recorders s"
proof -
  obtain r where r: "mediaRecorderRef s = Some r" using assms(2) by auto
  have q: "stopRequest d s = stopRecording s"
    using assms by (simp add: stopRequest_def stopTaskQueued_def)
  note e = stopRecording_inactive [OF r assms(1)]
  show "isRecording (stopRequest d s) = False"
    unfolding q e by (simp add: stopTimer_def split: option.splits)
  show "isPaused (stopRequest d s) = False"
    unfolding q e by (simp add: stopTimer_def split: option.splits)
  show "recordedBlob (stopRequest d s) = recordedBlob s"
    unfolding q e by (simp add: stopTimer_def split: option.splits)
  show "chunksRef (stopRequest d s) = chunksRef s"
    unfolding q e by (simp add: stopTimer_def split: option.splits)
  show "streamRef (stopRequest d s) = streamRef s"
    unfolding q e by (simp add: stopTimer_def split: option.splits)
  show "intervalRef (stopRequest d s) = None"
    unfolding q e by (simp add: stopTimer_def split: option.splits)
  show "timers (stopRequest d s) =
           (case intervalRef s of None \<Rightarrow> timers s | Some t \<Rightarrow> removeAll t (timers s))"
    unfolding q e by (simp add: stopTimer_def split: option.splits)
  show "liveTracks (stopRequest d s) = liveTracks s"
    unfolding q e by (simp add: stopTimer_def split: option.splits)
  show "mediaRecorderRef (stopRequest d s) = mediaRecorderRef s"
    unfolding q e by (simp add: stopTimer_def split: option.splits)
  show "pending (stopRequest d s) = pending s"
    unfolding q e by (simp add: stopTimer_def split: option.splits)
  show "duration (stopRequest d s) = duration s"
    unfolding q e by (simp add: stopTimer_def split: option.splits)
  show "recorders (stopRequest d s) = recorders s"
    unfolding q e by (simp add: stopTimer_def split: option.splits)
qed

lemma recorderEnded_fields:
  shows "isRecording (recorderEnded r d s) = isRecording s"
    and "isPaused (recorderEnded r d s) = isPaused s"
    and "recordedBlob (recorderEnded r d s) = Some (concat (chunksRef s) @ d)"
    and "chunksRef (recorderEnded r d s) = chunksRef s @ (if d = [] then [] else [d])"
    and "streamRef (recorderEnded r d s) = None"
    and "intervalRef (recorderEnded r d s) = intervalRef s"
    and "timers (recorderEnded r d s) = timers s"
    and "mediaRecorderRef (recorderEnded r d s) = mediaRecorderRef s"
    and "pending (recorderEnded r d s) = pending s"
    and "duration (recorderEnded r d s) = duration s"
    and "recorders (recorderEnded r d s) = (recorders s)[r := RInactive]"
  by (simp_all add: recorderEnded_def onstop_def ondataavailable_def Let_def
      split: option.splits)

lemma inv_ref: "inv s \<Longrightarrow> isRecording s \<Longrightarrow> mediaRecorderRef s \<noteq> None"
  by (simp add: inv_def)

lemma inv_stopRequest:
  assumes i: "inv s" and rec: "isRecording s"
  shows "inv (stopRequest d s)"
proof (cases "currentRecorder s = RInactive")
  case True
  note f = stopRequest_inactive_fields [OF True inv_ref [OF i rec]]
  have "recordedBlob s \<noteq> None" using i rec True by (auto simp: inv_def split: if_splits)
  then show ?thesis using i by (simp add: inv_def [of "stopRequest d s"] f) (simp add: inv_def)
next
  case False
  note f = stopRequest_fields(1-11) [OF False]
  show ?thesis using i by (simp add: inv_def [of "stopRequest d s"] f) (simp add: inv_def)
qed

lemma inv_recorderEnded:
  assumes i: "inv s"
  shows "inv (recorderEnded r d s)"
proof -
  have c: "currentRecorder (recorderEnded r d s) = RInactive \<or>
           currentRecorder (recorderEnded r d s) = currentRecorder s"
    by (cases "mediaRecorderRef s")
       (simp_all add: currentRecorder_def recorderEnded_fields recorderState_update)
  have n: "\<forall>c \<in> set (chunksRef (recorderEnded r d s)). c \<noteq> []"
    using i by (simp add: recorderEnded_fields inv_def)
  show ?thesis
    unfolding inv_def [of "recorderEnded r d s"]
    using i c n
    by (simp add: recorderEnded_fields(1-3,8)) (auto simp: inv_def split: if_splits)
qed

lemma inv_download: "inv s \<Longrightarrow> inv (downloadRecording now s)"
  by (cases "recordedBlob s") (auto simp: inv_def downloadRecording_def currentRecorder_def)

lemma inv_tick: "inv s \<Longrightarrow> inv (tick s)"
  by (simp add: inv_def tick_def currentRecorder_def)

lemma inv_captureMode: "inv s \<Longrightarrow> inv (s\<lparr>captureMode := m\<rparr>)"
  by (simp add: inv_def currentRecorder_def)

lemma inv_micEnabled: "inv s \<Longrightarrow> inv (s\<lparr>micEnabled := b\<rparr>)"
  by (simp add: inv_def currentRecorder_def)

lemma inv_step:
  assumes i: "inv s" and st: "step s e = Some s'"
  shows "inv s'"
proof (cases e)
  case StartClick
  then have "s' = startRecording s" using st by (simp split: if_splits)
  then show ?thesis using i by (simp add: inv_startRecording)
next
  case (Settle i out)
  then show ?thesis using i st by (simp add: inv_resume)
next
  case PauseClick
  then have rec: "isRecording s" using st by (simp split: if_splits)
  show ?thesis
  proof (cases "pauseRecording s")
    case (Inl x)
    then show ?thesis using i st PauseClick rec by simp
  next
    case (Inr y)
    then have "s' = y" using st PauseClick rec by simp
    then show ?thesis using inv_pause [OF i Inr] by simp
  qed
next
  case (StopClick d)
  then have "isRecording s" "s' = stopRequest d s" using st by (simp_all split: if_splits)
  then show ?thesis using i by (simp add: inv_stopRequest)
next
  case (Tick t)
  then have "s' = tick s" using st by (simp split: if_splits)
  then show ?thesis using i by (simp add: inv_tick)
next
  case (DataAvailable r d)
  then have "s' = ondataavailable d s" using st by (simp split: if_splits)
  then show ?thesis using i by (simp add: inv_ondata)
next
  case (DownloadClick now)
  then have "s' = downloadRecording now s" using st by (simp split: if_splits)
  then show ?thesis using i by (simp add: inv_download)
next
  case (SetCaptureMode m)
  then have "s' = s\<lparr>captureMode := m\<rparr>" using st by (simp split: if_splits)
  then show ?thesis using i by (simp add: inv_captureMode)
next
  case ToggleMic
  then have "s' = s\<lparr>micEnabled := \<not> micEnabled s\<rparr>" using st by (simp split: if_splits)
  then show ?thesis using i by (simp add: inv_micEnabled)
next
  case (RecorderEnded r d)
  then have "s' = recorderEnded r d s" using st by (simp split: if_splits)
  then show ?thesis using i by (simp add: inv_recorderEnded)
qed

lemma reachable_inv: "reachable s \<Longrightarrow> inv s"
  by (induction rule: reachable.induct) (auto intro: inv_initial inv_step)

lemma reachable_exec: "reachable s \<Longrightarrow> reachable (exec s es)"
proof (induction es arbitrary: s)
  case Nil
  then show ?case by simp
next
  case (Cons e es)
  show ?case
  proof (cases "step s e")
    case None
    then show ?thesis using Cons by simp
  next
    case (Some s')
    then have "reachable s'" using Cons.prems by (rule reachable_step [rotated])
    then show ?thesis using Cons.IH Some by simp
  qed
qed

subsection \<open>The invariants of serial sessions\<close>

lemma tracked_initial: "tracked (initial ok)"
  by (simp add: tracked_def initial_def)

lemma tracked_catch: "tracked s \<Longrightarrow> tracked (startRecording_catch s)"
  by (simp add: tracked_def startRecording_catch_def)

lemma tracked_finish:
  "tracked s \<Longrightarrow> \<not> isRecording s \<Longrightarrow> pending s = [] \<Longrightarrow>
   tracked (startRecording_finish m st s)"
  by (cases "intervalRef s")
     (simp_all add: tracked_def startRecording_finish_def startRecording_catch_def
        startTimer_def Let_def)

lemma serial_resume_shape:
  assumes t: "tracked s" and r: "startRecording_resume i out s = Some s'"
  shows "\<not> isRecording s \<and> take i (pending s) @ drop (Suc i) (pending s) = []"
proof -
  have i: "i < length (pending s)" using r
    by (simp add: startRecording_resume_def split: if_splits)
  then have p: "pending s \<noteq> []" by auto
  then have n: "\<not> isRecording s" using t by (auto simp: tracked_def)
  have "length (pending s) \<le> 1" using t by (simp add: tracked_def)
  then have "i = 0" and "length (pending s) = 1" using i by simp_all
  then show ?thesis using n by simp
qed

lemma tracked_resume:
  assumes t: "tracked s" and r: "startRecording_resume i out s = Some s'"
  shows "tracked s'"
proof -
  have n: "\<not> isRecording s"
    and e: "take i (pending s) @ drop (Suc i) (pending s) = []"
    using serial_resume_shape [OF t r] by simp_all
  have a: "tracked (s\<lparr>pending := []\<rparr>)"
    using t n by (simp add: tracked_def)
  have b: "\<And>l. tracked (s\<lparr>pending := [], liveTracks := l\<rparr>)"
    using t n by (simp add: tracked_def)
  have c: "\<And>l x. tracked (s\<lparr>liveTracks := l, pending := [x]\<rparr>)"
    using t n by (simp add: tracked_def)
  have f: "\<And>l m st. tracked (startRecording_finish m st (s\<lparr>pending := [], liveTracks := l\<rparr>))"
    using b n by (simp add: tracked_finish)
  show ?thesis using r
    unfolding startRecording_resume_def Let_def e
    by (simp split: prod.splits option.splits await.splits list.splits if_splits)
       (auto intro: tracked_catch a b c f)
qed

lemma tracked_pause:
  assumes i: "inv s" and t: "tracked s" and rec: "isRecording s"
    and p: "pauseRecording s = Inr s'"
  shows "tracked s'"
  using i rec
proof (cases rule: pause_cases)
  case (pauses r)
  have e: "s' = (stopTimer (s\<lparr>recorders := (recorders s)[r := RPaused]\<rparr>))
           \<lparr>isPaused := True,
            toasts := toasts s @ [Toast ''Recording Paused'' [] False]\<rparr>"
    using p pauses by simp
  show ?thesis unfolding e using t pauses rec
    by (cases "intervalRef s") (simp_all add: tracked_def stopTimer_def)
next
  case (resumes r)
  have e: "s' = (startTimer (s\<lparr>recorders := (recorders s)[r := RRecording]\<rparr>))
           \<lparr>isPaused := False,
            toasts := toasts s @ [Toast ''Recording Resumed'' [] False]\<rparr>"
    using p resumes by simp
  show ?thesis unfolding e using t resumes rec
    by (cases "intervalRef s") (simp_all add: tracked_def startTimer_def)
next
  case throws
  then show ?thesis using p by simp
qed

lemma tracked_stopRequest:
  assumes i: "inv s" and t: "tracked s" and rec: "isRecording s"
  shows "tracked (stopRequest d s)"
proof (cases "currentRecorder s = RInactive")
  case True
  note f = stopRequest_inactive_fields [OF True inv_ref [OF i rec]]
  show ?thesis using t rec
    by (cases "intervalRef s")
       (simp_all add: tracked_def [of "stopRequest d s"] f, simp_all add: tracked_def)
next
  case False
  note f = stopRequest_fields(1-11) [OF False]
  show ?thesis using t rec
    by (cases "intervalRef s")
       (simp_all add: tracked_def [of "stopRequest d s"] f, simp_all add: tracked_def)
qed

lemma tracked_step:
  assumes i: "inv s" and t: "tracked s" and st: "step_serial s e = Some s'"
  shows "tracked s'"
proof (cases e)
  case StartClick
  then have "s' = startRecording s" "pending s = []" "\<not> isRecording s"
    using st by (simp_all add: step_serial_def split: if_splits)
  then show ?thesis using t by (simp add: tracked_def startRecording_def)
next
  case (Settle i out)
  then show ?thesis using t st by (simp add: step_serial_def tracked_resume)
next
  case PauseClick
  then have rec: "isRecording s" using st by (simp add: step_serial_def split: if_splits)
  show ?thesis
  proof (cases "pauseRecording s")
    case (Inl x)
    then show ?thesis using t st PauseClick rec by (simp add: step_serial_def)
  next
    case (Inr y)
    then have "s' = y" using st PauseClick rec by (simp add: step_serial_def)
    then show ?thesis using tracked_pause [OF i t rec Inr] by simp
  qed
next
  case (StopClick d)
  then have "isRecording s" "s' = stopRequest d s"
    using st by (simp_all add: step_serial_def split: if_splits)
  then show ?thesis using i t by (simp add: tracked_stopRequest)
next
  case (Tick n)
  then have "s' = tick s" using st by (simp add: step_serial_def split: if_splits)
  then show ?thesis using t by (simp add: tracked_def tick_def)
next
  case (DataAvailable r d)
  then have "s' = ondataavailable d s" using st by (simp add: step_serial_def split: if_splits)
  then show ?thesis using t by (simp add: tracked_def ondataavailable_def)
next
  case (DownloadClick now)
  then have "s' = downloadRecording now s"
    using st by (simp add: step_serial_def split: if_splits)
  then show ?thesis using t
    by (cases "recordedBlob s") (simp_all add: tracked_def downloadRecording_def)
next
  case (SetCaptureMode m)
  then have "s' = s\<lparr>captureMode := m\<rparr>"
    using st by (simp add: step_serial_def split: if_splits)
  then show ?thesis using t by (simp add: tracked_def)
next
  case ToggleMic
  then have "s' = s\<lparr>micEnabled := \<not> micEnabled s\<rparr>"
    using st by (simp add: step_serial_def split: if_splits)
  then show ?thesis using t by (simp add: tracked_def)
next
  case (RecorderEnded r d)
  then have "s' = recorderEnded r d s"
    using st by (simp add: step_serial_def split: if_splits)
  then show ?thesis using t by (simp add: tracked_def recorderEnded_fields)
qed

lemma single_initial: "single (initial ok)"
  by (simp add: single_def initial_def recorderState_def currentRecorder_def)

lemma single_idle: "single s \<Longrightarrow> \<not> isRecording s \<Longrightarrow> recorderState (recorders s) r = RInactive"
  by (auto simp: single_def)

lemma single_catch: "single s \<Longrightarrow> single (startRecording_catch s)"
  by (simp add: single_def startRecording_catch_def currentRecorder_def)

lemma single_finish:
  assumes s: "single s" and n: "\<not> isRecording s"
  shows "single (startRecording_finish m st s)"
proof (cases "recorderSupported s")
  case False
  then show ?thesis using s n
    by (simp add: single_def startRecording_finish_def startRecording_catch_def
        currentRecorder_def Let_def)
next
  case True
  have a: "\<And>r. recorderState (recorders s) r = RInactive" using s n by (rule single_idle)
  show ?thesis using True a
    by (simp add: single_def startRecording_finish_def startTimer_def currentRecorder_def
        recorderState_append Let_def)
qed

lemma single_resume:
  assumes t: "tracked s" and s: "single s" and r: "startRecording_resume i out s = Some s'"
  shows "single s'"
proof -
  have n: "\<not> isRecording s" using serial_resume_shape [OF t r] by simp
  have a: "\<And>p. single (s\<lparr>pending := p\<rparr>)"
    using s by (simp add: single_def currentRecorder_def)
  have b: "\<And>p l. single (s\<lparr>pending := p, liveTracks := l\<rparr>)"
    using s by (simp add: single_def currentRecorder_def)
  have c: "\<And>l p. single (s\<lparr>liveTracks := l, pending := p\<rparr>)"
    using s by (simp add: single_def currentRecorder_def)
  have f: "\<And>p l m st. single (startRecording_finish m st (s\<lparr>pending := p, liveTracks := l\<rparr>))"
    using b n by (simp add: single_finish)
  show ?thesis using r
    unfolding startRecording_resume_def Let_def
    by (simp split: prod.splits option.splits await.splits list.splits if_splits)
       (auto intro: single_catch a b c f)
qed

lemma single_pause:
  assumes i: "inv s" and s: "single s" and rec: "isRecording s"
    and p: "pauseRecording s = Inr s'"
  shows "single s'"
  using i rec
proof (cases rule: pause_cases)
  case (pauses r)
  have e: "s' = (stopTimer (s\<lparr>recorders := (recorders s)[r := RPaused]\<rparr>))
           \<lparr>isPaused := True,
            toasts := toasts s @ [Toast ''Recording Paused'' [] False]\<rparr>"
    using p pauses by simp
  show ?thesis unfolding e using s pauses rec
    by (cases "intervalRef s")
       (simp_all add: single_def stopTimer_def currentRecorder_def recorderState_update)
next
  case (resumes r)
  have e: "s' = (startTimer (s\<lparr>recorders := (recorders s)[r := RRecording]\<rparr>))
           \<lparr>isPaused := False,
            toasts := toasts s @ [Toast ''Recording Resumed'' [] False]\<rparr>"
    using p resumes by simp
  show ?thesis unfolding e using s resumes rec
    by (simp add: single_def startTimer_def currentRecorder_def recorderState_update)
next
  case throws
  then show ?thesis using p by simp
qed

lemma single_stopRequest:
  assumes i: "inv s" and s: "single s" and rec: "isRecording s"
  shows "single (stopRequest d s)"
proof (cases "currentRecorder s = RInactive")
  case True
  note f = stopRequest_inactive_fields [OF True inv_ref [OF i rec]]
  have "\<And>k. recorderState (recorders s) k = RInactive"
    using s True by (auto simp: single_def currentRecorder_def)
  then show ?thesis by (simp add: single_def [of "stopRequest d s"] f)
next
  case False
  note f = stopRequest_fields [OF False]
  have "\<And>k. mediaRecorderRef s \<noteq> Some k \<Longrightarrow> recorderState (recorders s) k = RInactive"
    using s by (auto simp: single_def)
  then show ?thesis by (simp add: single_def [of "stopRequest d s"] f)
qed

lemma single_ondata:
  assumes s: "single s" and r: "recorderState (recorders s) r = RRecording"
  shows "single (ondataavailable d s)"
proof -
  have "recorderState (recorders s) r \<noteq> RInactive" using r by simp
  then have "isRecording s \<and> mediaRecorderRef s = Some r" using s by (auto simp: single_def)
  then have "currentRecorder s = RRecording" using r by (simp add: currentRecorder_def)
  then show ?thesis using s
    by (simp add: single_def ondataavailable_def currentRecorder_def)
qed

lemma single_recorderEnded:
  assumes s: "single s" and r: "recorderState (recorders s) r \<noteq> RInactive"
  shows "single (recorderEnded r d s)"
proof -
  have m: "isRecording s" "mediaRecorderRef s = Some r" using s r by (auto simp: single_def)
  have l: "r < length (recorders s)" using r by (simp add: recorderState_def split: if_splits)
  have o: "\<And>k. k \<noteq> r \<Longrightarrow> recorderState (recorders s) k = RInactive"
    using s m by (auto simp: single_def)
  show ?thesis using m l o
    by (simp add: single_def [of "recorderEnded r d s"] recorderEnded_fields
        currentRecorder_def recorderState_update)
qed

lemma single_step:
  assumes i: "inv s" and t: "tracked s" and s: "single s"
    and st: "step_serial s e = Some s'"
  shows "single s'"
proof (cases e)
  case StartClick
  then have "s' = startRecording s"
    using st by (simp add: step_serial_def split: if_splits)
  then show ?thesis using s by (simp add: single_def startRecording_def currentRecorder_def)
next
  case (Settle i out)
  then show ?thesis using t s st by (simp add: step_serial_def single_resume)
next
  case PauseClick
  then have rec: "isRecording s" using st by (simp add: step_serial_def split: if_splits)
  show ?thesis
  proof (cases "pauseRecording s")
    case (Inl x)
    then show ?thesis using s st PauseClick rec by (simp add: step_serial_def)
  next
    case (Inr y)
    then have "s' = y" using st PauseClick rec by (simp add: step_serial_def)
    then show ?thesis using single_pause [OF i s rec Inr] by simp
  qed
next
  case (StopClick d)
  then have "isRecording s" "s' = stopRequest d s"
    using st by (simp_all add: step_serial_def split: if_splits)
  then show ?thesis using i s by (simp add: single_stopRequest)
next
  case (Tick n)
  then have "s' = tick s" using st by (simp add: step_serial_def split: if_splits)
  then show ?thesis using s by (simp add: single_def tick_def currentRecorder_def)
next
  case (DataAvailable r d)
  then have "recorderState (recorders s) r = RRecording" "s' = ondataavailable d s"
    using st by (simp_all add: step_serial_def split: if_splits)
  then show ?thesis using s by (simp add: single_ondata)
next
  case (DownloadClick now)
  then have "s' = downloadRecording now s"
    using st by (simp add: step_serial_def split: if_splits)
  then show ?thesis using s
    by (cases "recordedBlob s")
       (simp_all add: single_def downloadRecording_def currentRecorder_def)
next
  case (SetCaptureMode m)
  then have "s' = s\<lparr>captureMode := m\<rparr>"
    using st by (simp add: step_serial_def split: if_splits)
  then show ?thesis using s by (simp add: single_def currentRecorder_def)
next
  case ToggleMic
  then have "s' = s\<lparr>micEnabled := \<not> micEnabled s\<rparr>"
    using st by (simp add: step_serial_def split: if_splits)
  then show ?thesis using s by (simp add: single_def currentRecorder_def)
next
  case (RecorderEnded r d)
  then have "recorderState (recorders s) r \<noteq> RInactive" "s' = recorderEnded r d s"
    using st by (simp_all add: step_serial_def split: if_splits)
  then show ?thesis using s by (simp add: single_recorderEnded)
qed

lemma step_serial_step: "step_serial s e = Some s' \<Longrightarrow> step s e = Some s'"
  by (simp add: step_serial_def split: if_splits)

lemma serial_reachable: "serial s \<Longrightarrow> reachable s"
  by (induction rule: serial.induct)
     (auto intro: reachable_initial reachable_step step_serial_step)

lemma serial_invariants: "serial s \<Longrightarrow> tracked s \<and> single s"
proof (induction rule: serial.induct)
  case (serial_initial ok)
  show ?case by (simp add: tracked_initial single_initial)
next
  case (serial_step s e s')
  have i: "inv s" using serial_step.hyps(1) by (simp add: serial_reachable reachable_inv)
  show ?case
    using tracked_step [OF i _ serial_step.hyps(2)] single_step [OF i _ _ serial_step.hyps(2)]
      serial_step.IH
    by simp
qed

lemma serial_tracked: "serial s \<Longrightarrow> tracked s"
  by (simp add: serial_invariants)

lemma serial_single: "serial s \<Longrightarrow> single s"
  by (simp add: serial_invariants)

lemma serial_exec: "serial s \<Longrightarrow> serial (exec_serial s es)"
proof (induction es arbitrary: s)
  case Nil
  then show ?case by simp
next
  case (Cons e es)
  show ?case
  proof (cases "step_serial s e")
    case None
    then show ?thesis using Cons by simp
  next
    case (Some s')
    then have "serial s'" using Cons.prems by (rule serial_step [rotated])
    then show ?thesis using Cons.IH Some by simp
  qed
qed

subsection \<open>Evaluating the examples\<close>

lemmas eval_defs =
  initial_def step_serial_def startRecording_def startRecording_resume_def
  startRecording_finish_def startRecording_catch_def startTimer_def stopTimer_def tick_def
  ondataavailable_def onstop_def pauseRecording_def stopRequest_def stopRecording_def
  stopTaskQueued_def currentRecorder_def recorderState_def recorder_pause_def
  recorder_resume_def recorder_stop_def getMediaConstraints_def addTrack_def modeName_def
  downloadRecording_def recorderEnded_def status_def Let_def

lemma serial_recording_example: "serial recording_example"
  unfolding recording_example_def by (rule serial_exec [OF serial_initial])

lemma serial_paused_example: "serial paused_example"
  unfolding paused_example_def by (rule serial_exec [OF serial_initial])

lemma serial_stopped_example: "serial stopped_example"
  unfolding stopped_example_def by (rule serial_exec [OF serial_initial])

lemma recording_example_eq:
  "recording_example =
     \<lparr> isRecording = True, isPaused = False, duration = 2, recordedBlob = None,
       micEnabled = True, captureMode = Screen,
       mediaRecorderRef = Some 0, streamRef = Some [(1, Video), (2, Audio)],
       chunksRef = [[1, 2]], intervalRef = Some 2,
       timers = [2], nextTimer = 3, recorders = [RRecording], recorderSupported = True,
       liveTracks = [1, 2], pending = [],
       toasts = [Toast ''Recording Started'' ''screen recording is now active'' False,
                 Toast ''Recording Paused'' [] False, Toast ''Recording Resumed'' [] False],
       downloads = [] \<rparr>"
  by (simp add: recording_example_def eval_defs)

lemma paused_example_eq:
  "paused_example =
     \<lparr> isRecording = True, isPaused = True, duration = 1, recordedBlob = None,
       micEnabled = True, captureMode = Screen,
       mediaRecorderRef = Some 0, streamRef = Some [(1, Video), (2, Audio)],
       chunksRef = [[1, 2]], intervalRef = None,
       timers = [], nextTimer = 2, recorders = [RPaused], recorderSupported = True,
       liveTracks = [1, 2], pending = [],
       toasts = [Toast ''Recording Started'' ''screen recording is now active'' False,
                 Toast ''Recording Paused'' [] False],
       downloads = [] \<rparr>"
  by (simp add: paused_example_def eval_defs)

lemma stopped_example_eq:
  "stopped_example =
     \<lparr> isRecording = False, isPaused = False, duration = 1, recordedBlob = Some [1, 2, 3],
       micEnabled = True, captureMode = Screen,
       mediaRecorderRef = Some 0, streamRef = None,
       chunksRef = [[1, 2], [3]], intervalRef = None,
       timers = [], nextTimer = 2, recorders = [RInactive], recorderSupported = True,
       liveTracks = [], pending = [],
       toasts = [Toast ''Recording Started'' ''screen recording is now active'' False,
                 Toast ''Recording Stopped'' ''Your recording is ready for download'' False],
       downloads = [] \<rparr>"
  by (simp add: stopped_example_def eval_defs)



lemma serial_ended_example: "serial ended_example"
  unfolding ended_example_def by (rule serial_exec [OF serial_initial])

lemma ended_example_eq:
  "ended_example =
     \<lparr> isRecording = True, isPaused = False, duration = 1, recordedBlob = Some [1, 2, 3],
       micEnabled = True, captureMode = Screen,
       mediaRecorderRef = Some 0, streamRef = None,
       chunksRef = [[1, 2], [3]], intervalRef = Some 1,
       timers = [1], nextTimer = 2, recorders = [RInactive], recorderSupported = True,
       liveTracks = [], pending = [],
       toasts = [Toast ''Recording Started'' ''screen recording is now active'' False],
       downloads = [] \<rparr>"
  by (simp add: ended_example_def eval_defs)

lemma overlapping_example_eq:
  "overlapping_example =
     \<lparr> isRecording = True, isPaused = False, duration = 0, recordedBlob = None,
       micEnabled = True, captureMode = Camera,
       mediaRecorderRef = Some 1, streamRef = Some [(3, Video), (4, Audio)],
       chunksRef = [], intervalRef = Some 2,
       timers = [1, 2], nextTimer = 3, recorders = [RRecording, RRecording],
       recorderSupported = True,
       liveTracks = [1, 2, 3, 4], pending = [],
       toasts = [Toast ''Recording Started'' ''camera recording is now active'' False,
                 Toast ''Recording Started'' ''camera recording is now active'' False],
       downloads = [] \<rparr>"
  by (simp add: overlapping_example_def eval_defs)

subsection \<open>What a step can change\<close>

lemma finish_fields:
  "(duration (startRecording_finish m st s) = duration s \<and>
    recordedBlob (startRecording_finish m st s) = recordedBlob s \<and>
    isRecording (startRecording_finish m st s) = isRecording s) \<or>
   (duration (startRecording_finish m st s) = 0 \<and>
    recordedBlob (startRecording_finish m st s) = None \<and>
    isRecording (startRecording_finish m st s) \<and>
    \<not> isPaused (startRecording_finish m st s))"
  by (simp add: startRecording_finish_def startRecording_catch_def startTimer_def Let_def)

lemma unchanged_or_started_cases:
  "unchanged_or_started s (s\<lparr>pending := p\<rparr>)"
  "unchanged_or_started s (s\<lparr>pending := p, liveTracks := l\<rparr>)"
  "unchanged_or_started s (s\<lparr>liveTracks := l, pending := p\<rparr>)"
  "unchanged_or_started s (startRecording_catch (s\<lparr>pending := p\<rparr>))"
  "unchanged_or_started s (startRecording_catch (s\<lparr>pending := p, liveTracks := l\<rparr>))"
  "unchanged_or_started s (startRecording_finish m st (s\<lparr>pending := p, liveTracks := l\<rparr>))"
  using finish_fields [of m st "s\<lparr>pending := p, liveTracks := l\<rparr>"]
  by (auto simp: unchanged_or_started_def startRecording_catch_def)

lemma resume_fields:
  assumes "startRecording_resume i out s = Some s'"
  shows "i < length (pending s) \<and> unchanged_or_started s s'"
  using assms unfolding startRecording_resume_def Let_def
  by (simp split: if_splits prod.splits option.splits await.splits list.splits)
     (auto simp: unchanged_or_started_cases)


lemma pause_fields:
  assumes "inv s" "isRecording s" "pauseRecording s = Inr s'"
  shows "duration s' = duration s \<and> recordedBlob s' = recordedBlob s"
  using assms(1,2)
proof (cases rule: pause_cases)
  case (pauses r)
  then show ?thesis using assms(3)
    by (cases "intervalRef s") (auto simp: stopTimer_def)
next
  case (resumes r)
  then show ?thesis using assms(3) by (auto simp: startTimer_def)
next
  case throws
  then show ?thesis using assms(3) by simp
qed

lemma pause_step_fields:
  assumes i: "inv s" and st: "step s PauseClick = Some s'"
  shows "duration s' = duration s \<and> recordedBlob s' = recordedBlob s"
proof -
  have rec: "isRecording s" using st by (simp split: if_splits)
  show ?thesis
  proof (cases "pauseRecording s")
    case (Inl x)
    then show ?thesis using st rec by simp
  next
    case (Inr y)
    then have "s' = y" using st rec by simp
    then show ?thesis using pause_fields [OF i rec Inr] by simp
  qed
qed

lemma stopRequest_duration:
  assumes i: "inv s" and rec: "isRecording s"
  shows "duration (stopRequest d s) = duration s"
proof (cases "currentRecorder s = RInactive")
  case True
  show ?thesis by (rule stopRequest_inactive_fields(11) [OF True inv_ref [OF i rec]])
next
  case False
  show ?thesis by (rule stopRequest_fields(11) [OF False])
qed

lemma serial_stop_blob:
  assumes s: "serial s" and rec: "isRecording s"
  shows "recordedBlob (stopRequest d s) = Some (concat (chunksRef (stopRequest d s)))"
proof (cases "currentRecorder s = RInactive")
  case True
  have i: "inv s" using s by (simp add: serial_reachable reachable_inv)
  have "recordedBlob s = Some (concat (chunksRef s))"
    using serial_single [OF s] rec True by (simp add: single_def)
  then show ?thesis
    by (simp add: stopRequest_inactive_fields(3,4) [OF True inv_ref [OF i rec]])
next
  case False
  show ?thesis by (simp add: stopRequest_fields(3,4) [OF False])
qed

section \<open>The claims of the specification\<close>

subsection \<open>Stopping\<close>

text \<open>
  C1, amended. In every state of a serial session (no start button clicked while a
  start is suspended) whose status is Recording or Paused the stop button is offered, and
  the stop request (the handler, then the task the stopped recorder queues, delivering its
  last data \<open>d\<close>) leads to status Stopped with no interval live and the handle cleared.
  The recorded blob is then the concatenation, in arrival order, of the chunks
  accumulated, the last data among them unless the recorder had already stopped on its
  own. Every track of the stream held is stopped and the stream reference is cleared; a
  stream is held as long as the recorder is active.
\<close>

theorem stop_request_finalizes:
  assumes "serial s" and "status s = Recording \<or> status s = Paused"
  shows "step s (StopClick d) = Some (stopRequest d s) \<and>
         status (stopRequest d s) = Stopped \<and>
         intervalRef (stopRequest d s) = None \<and>
         timers (stopRequest d s) = [] \<and>
         recordedBlob (stopRequest d s) = Some (concat (chunksRef (stopRequest d s))) \<and>
         chunksRef (stopRequest d s) =
           chunksRef s @ (if currentRecorder s = RInactive \<or> d = [] then [] else [d]) \<and>
         (\<forall>st. streamRef s = Some st \<longrightarrow>
               (\<forall>t \<in> set st. fst t \<notin> set (liveTracks (stopRequest d s)))) \<and>
         streamRef (stopRequest d s) = None \<and>
         (currentRecorder s \<noteq> RInactive \<longrightarrow> streamRef s \<noteq> None)"
proof -
  have i: "inv s" using assms(1) by (simp add: serial_reachable reachable_inv)
  have t: "tracked s" using assms(1) by (rule serial_tracked)
  have g: "single s" using assms(1) by (rule serial_single)
  have rec: "isRecording s" using assms(2) by (auto simp: status_def split: if_splits)
  have 1: "step s (StopClick d) = Some (stopRequest d s)" using rec by simp
  have 2: "tracked (stopRequest d s)" using i t rec by (rule tracked_stopRequest)
  show ?thesis
  proof (cases "currentRecorder s = RInactive")
    case True
    note f = stopRequest_inactive_fields [OF True inv_ref [OF i rec]]
    have b: "streamRef s = None" "recordedBlob s = Some (concat (chunksRef s))"
      using g rec True by (simp_all add: single_def)
    have 3: "timers (stopRequest d s) = []" using 2 by (simp add: tracked_def f)
    show ?thesis using 1 3 b True by (simp add: f status_def)
  next
    case False
    note f = stopRequest_fields(1-11) [OF False]
    have b: "streamRef s \<noteq> None" using g rec False by (simp add: single_def)
    have 3: "timers (stopRequest d s) = []" using 2 by (simp add: tracked_def f(1,2,6))
    have 4: "\<forall>st. streamRef s = Some st \<longrightarrow>
               (\<forall>t \<in> set st. fst t \<notin> set (liveTracks (stopRequest d s)))"
      by (simp add: f(8))
    have 5: "status (stopRequest d s) = Stopped" by (simp add: status_def f(1,3))
    have 6: "recordedBlob (stopRequest d s) = Some (concat (chunksRef (stopRequest d s)))"
      by (simp add: f(3,4))
    have 7: "chunksRef (stopRequest d s) =
           chunksRef s @ (if currentRecorder s = RInactive \<or> d = [] then [] else [d])"
      using False by (simp add: f(4))
    show ?thesis using 1 3 4 5 6 7 b False f(5,6) by blast
  qed
qed

text \<open>
  Instances: a recording session, a paused session, and a session whose recorder had
  stopped on its own.
\<close>

theorem stop_request_finalizes_witness:
  "serial recording_example \<and> status recording_example = Recording \<and>
   status (stopRequest [3] recording_example) = Stopped \<and>
   timers (stopRequest [3] recording_example) = [] \<and>
   recordedBlob (stopRequest [3] recording_example) = Some [1, 2, 3] \<and>
   liveTracks (stopRequest [3] recording_example) = [] \<and>
   serial paused_example \<and> status paused_example = Paused \<and>
   status (stopRequest [] paused_example) = Stopped \<and>
   recordedBlob (stopRequest [] paused_example) = Some [1, 2] \<and>
   liveTracks (stopRequest [] paused_example) = [] \<and>
   serial ended_example \<and> status ended_example = Recording \<and>
   status (stopRequest [4] ended_example) = Stopped \<and>
   timers (stopRequest [4] ended_example) = [] \<and>
   recordedBlob (stopRequest [4] ended_example) = Some [1, 2, 3]"
proof -
  have sr: "status recording_example = Recording \<or> status recording_example = Paused"
    by (simp add: recording_example_eq status_def)
  have sp: "status paused_example = Recording \<or> status paused_example = Paused"
    by (simp add: paused_example_eq status_def)
  have se: "status ended_example = Recording \<or> status ended_example = Paused"
    by (simp add: ended_example_eq status_def)
  have lr: "liveTracks (stopRequest [3] recording_example) = []"
    by (simp add: recording_example_eq eval_defs)
  have lp: "liveTracks (stopRequest [] paused_example) = []"
    by (simp add: paused_example_eq eval_defs)
  have tr: "status recording_example = Recording" by (simp add: recording_example_eq status_def)
  have tp: "status paused_example = Paused" by (simp add: paused_example_eq status_def)
  have te: "status ended_example = Recording" by (simp add: ended_example_eq status_def)
  have cr: "chunksRef recording_example = [[1, 2]]"
    "currentRecorder recording_example = RRecording"
    by (simp_all add: recording_example_eq currentRecorder_def recorderState_def)
  have cp: "chunksRef paused_example = [[1, 2]]"
    "currentRecorder paused_example = RPaused"
    by (simp_all add: paused_example_eq currentRecorder_def recorderState_def)
  have ce: "chunksRef ended_example = [[1, 2], [3]]"
    "currentRecorder ended_example = RInactive"
    by (simp_all add: ended_example_eq currentRecorder_def recorderState_def)
  note a = stop_request_finalizes [OF serial_recording_example sr, of "[3]"]
  note b = stop_request_finalizes [OF serial_paused_example sp, of "[]"]
  note c = stop_request_finalizes [OF serial_ended_example se, of "[4]"]
  have a': "status (stopRequest [3] recording_example) = Stopped \<and>
      timers (stopRequest [3] recording_example) = [] \<and>
      recordedBlob (stopRequest [3] recording_example) = Some [1, 2, 3]"
    using a by (simp add: cr)
  have b': "status (stopRequest [] paused_example) = Stopped \<and>
      recordedBlob (stopRequest [] paused_example) = Some [1, 2]"
    using b by (simp add: cp)
  have c': "status (stopRequest [4] ended_example) = Stopped \<and>
      timers (stopRequest [4] ended_example) = [] \<and>
      recordedBlob (stopRequest [4] ended_example) = Some [1, 2, 3]"
    using c by (simp add: ce)
  show ?thesis
    using a' b' c' lr lp tr tp te serial_recording_example serial_paused_example
      serial_ended_example
    by blast
qed

text \<open>
  The claim as stated fails: in the camera session started twice (status Recording) the
  stop request arrives at Stopped, but the interval of the first start stays live and goes
  on advancing the elapsed time, and the tracks of the first stream stay live.
\<close>

theorem stop_after_overlapping_starts_counterexample:
  "status overlapping_example = Recording \<and>
   step overlapping_example (StopClick [5]) = Some (stopRequest [5] overlapping_example) \<and>
   status (stopRequest [5] overlapping_example) = Stopped \<and>
   timers (stopRequest [5] overlapping_example) = [1] \<and>
   liveTracks (stopRequest [5] overlapping_example) = [1, 2] \<and>
   map_option duration (step (stopRequest [5] overlapping_example) (Tick 1)) =
     Some (Suc (duration (stopRequest [5] overlapping_example)))"
  by (simp add: overlapping_example_eq eval_defs)

subsection \<open>Redundant requests\<close>

text \<open>
  C2, amended. Pausing and resuming are one handler, \<^verbatim>\<open>pauseRecording\<close>, which
  toggles. In every reachable state: requested while the status is Idle or Stopped it
  leaves the whole state unchanged and does not throw; a stop request while the status is
  Idle leaves the whole state unchanged. Requested while the status is Recording the
  toggle pauses, and while it is Paused it resumes, whichever of the two was meant, as
  long as the recorder is active; once the recorder has stopped on its own, the request
  throws \<^verbatim>\<open>InvalidStateError\<close> and changes nothing. So a pause request is a no-op
  only while Idle or Stopped (not while Paused), and a resume request only while Idle or
  Stopped (not while Recording).
\<close>

theorem redundant_requests:
  assumes "reachable s"
  shows "(status s = Idle \<or> status s = Stopped \<longrightarrow> pauseRecording s = Inr s) \<and>
         (status s = Idle \<longrightarrow> stopRecording s = s) \<and>
         (status s = Recording \<longrightarrow>
            (if currentRecorder s = RInactive then pauseRecording s = Inl InvalidStateError
             else map_sum id status (pauseRecording s) = Inr Paused)) \<and>
         (status s = Paused \<longrightarrow>
            (if currentRecorder s = RInactive then pauseRecording s = Inl InvalidStateError
             else map_sum id status (pauseRecording s) = Inr Recording))"
proof -
  have i: "inv s" using assms by (rule reachable_inv)
  have 1: "status s = Idle \<or> status s = Stopped \<longrightarrow> pauseRecording s = Inr s"
    by (auto simp: status_def pause_noop split: if_splits)
  have 2: "status s = Idle \<longrightarrow> stopRecording s = s"
  proof
    assume "status s = Idle"
    then have "\<not> isRecording s" "recordedBlob s = None"
      by (auto simp: status_def split: if_splits)
    then have "mediaRecorderRef s = None" using i by (auto simp: inv_def)
    then show "stopRecording s = s" by (simp add: stopRecording_def)
  qed
  have 3: "status s = Recording \<longrightarrow>
            (if currentRecorder s = RInactive then pauseRecording s = Inl InvalidStateError
             else map_sum id status (pauseRecording s) = Inr Paused)"
  proof
    assume a: "status s = Recording"
    then have rec: "isRecording s" and np: "\<not> isPaused s"
      by (auto simp: status_def split: if_splits)
    from i rec show "if currentRecorder s = RInactive
        then pauseRecording s = Inl InvalidStateError
        else map_sum id status (pauseRecording s) = Inr Paused"
    proof (cases rule: pause_cases)
      case (pauses r)
      then show ?thesis using rec
        by (cases "intervalRef s") (simp_all add: status_def stopTimer_def)
    next
      case (resumes r)
      then show ?thesis using np by simp
    next
      case throws
      then show ?thesis by simp
    qed
  qed
  have 4: "status s = Paused \<longrightarrow>
            (if currentRecorder s = RInactive then pauseRecording s = Inl InvalidStateError
             else map_sum id status (pauseRecording s) = Inr Recording)"
  proof
    assume a: "status s = Paused"
    then have rec: "isRecording s" and p: "isPaused s"
      by (auto simp: status_def split: if_splits)
    from i rec show "if currentRecorder s = RInactive
        then pauseRecording s = Inl InvalidStateError
        else map_sum id status (pauseRecording s) = Inr Recording"
    proof (cases rule: pause_cases)
      case (pauses r)
      then show ?thesis using p by simp
    next
      case (resumes r)
      then show ?thesis using rec by (simp add: status_def startTimer_def)
    next
      case throws
      then show ?thesis by simp
    qed
  qed
  show ?thesis using 1 2 3 4 by blast
qed

text \<open>
  Instances: the initial state, a stopped session, a paused session, and a session
  whose recorder has stopped on its own.
\<close>

theorem redundant_requests_witness:
  "reachable (initial True) \<and> status (initial True) = Idle \<and>
   pauseRecording (initial True) = Inr (initial True) \<and>
   stopRecording (initial True) = initial True \<and>
   reachable stopped_example \<and> status stopped_example = Stopped \<and>
   pauseRecording stopped_example = Inr stopped_example \<and>
   reachable paused_example \<and> status paused_example = Paused \<and>
   map_sum id status (pauseRecording paused_example) = Inr Recording \<and>
   reachable ended_example \<and> status ended_example = Recording \<and>
   pauseRecording ended_example = Inl InvalidStateError"
proof -
  have a: "reachable (initial True)" by (rule reachable_initial)
  have b: "reachable stopped_example" by (rule serial_reachable [OF serial_stopped_example])
  have c: "reachable paused_example" by (rule serial_reachable [OF serial_paused_example])
  have d: "reachable ended_example" by (rule serial_reachable [OF serial_ended_example])
  have sa: "status (initial True) = Idle" by (simp add: initial_def status_def)
  have sb: "status stopped_example = Stopped" by (simp add: stopped_example_eq status_def)
  have sc: "status paused_example = Paused" "currentRecorder paused_example \<noteq> RInactive"
    by (simp_all add: paused_example_eq status_def currentRecorder_def recorderState_def)
  have sd: "status ended_example = Recording" "currentRecorder ended_example = RInactive"
    by (simp_all add: ended_example_eq status_def currentRecorder_def recorderState_def)
  have a': "pauseRecording (initial True) = Inr (initial True) \<and>
      stopRecording (initial True) = initial True"
    using redundant_requests [OF a] sa by simp
  have b': "pauseRecording stopped_example = Inr stopped_example"
    using redundant_requests [OF b] sb by simp
  have c': "map_sum id status (pauseRecording paused_example) = Inr Recording"
    using redundant_requests [OF c] sc by simp
  have d': "pauseRecording ended_example = Inl InvalidStateError"
    using redundant_requests [OF d] sd by simp
  show ?thesis using a b c d sa sb sc(1) sd(1) a' b' c' d' by blast
qed

text \<open>
  The claim as stated fails: in a recording session (status Recording, so not Paused) a
  request through the only handler that resumes changes the status to Paused.
\<close>

theorem toggle_changes_status_counterexample:
  "status recording_example = Recording \<and>
   map_sum id status (pauseRecording recording_example) = Inr Paused"
  by (simp add: recording_example_eq eval_defs)

subsection \<open>The tick\<close>

text \<open>
  C3, amended. \<^verbatim>\<open>startTimer\<close> checks nothing: it makes a new interval live beside
  whatever is live and overwrites the handle. In every state of a serial session (no start
  button clicked while a start is suspended) at most one interval is live, and it is the
  one whose handle \<^verbatim>\<open>intervalRef\<close> holds.
\<close>

theorem serial_at_most_one_timer:
  assumes "serial s"
  shows "length (timers s) \<le> 1 \<and>
         timers s = (case intervalRef s of None \<Rightarrow> [] | Some t \<Rightarrow> [t]) \<and>
         timers (startTimer s) = timers s @ [nextTimer s]"
proof -
  have t: "tracked s" using assms by (rule serial_tracked)
  then show ?thesis
    by (cases "intervalRef s") (simp_all add: tracked_def startTimer_def)
qed

text \<open>
  Instances: a recording session and a paused session.
\<close>

theorem serial_at_most_one_timer_witness:
  "serial recording_example \<and> timers recording_example = [2] \<and>
   intervalRef recording_example = Some 2 \<and>
   serial paused_example \<and> timers paused_example = []"
proof -
  have i: "intervalRef recording_example = Some 2" by (simp add: recording_example_eq)
  have j: "intervalRef paused_example = None" by (simp add: paused_example_eq)
  show ?thesis
    using serial_recording_example serial_paused_example i j
      serial_at_most_one_timer [OF serial_recording_example]
      serial_at_most_one_timer [OF serial_paused_example]
    by simp
qed

text \<open>
  The claim as stated fails: in camera mode, two clicks on the start button before the
  first acquisition settles, then both acquisitions granted, leave two intervals live, of
  which only the second is tracked.
\<close>

theorem overlapping_starts_two_timers_counterexample:
  "timers overlapping_example = [1, 2] \<and> intervalRef overlapping_example = Some 2"
  by (simp add: overlapping_example_def eval_defs)

subsection \<open>A failed acquisition\<close>

text \<open>
  C4. The code at the failing input: in the default configuration the screen is
  granted and the microphone then denied. The status stays Idle and the failure is
  reported, but the \<^verbatim>\<open>catch\<close> block releases nothing: the track of the display
  stream stays live, with no reference to it left in the component.
\<close>

theorem microphone_denied_leaves_display_open:
  "status denied_example = Idle \<and>
   toasts denied_example =
     [Toast ''Recording Failed'' ''Failed to start recording. Please check permissions.'' True] \<and>
   pending denied_example = [] \<and>
   streamRef denied_example = None \<and>
   liveTracks denied_example = [1]"
  by (simp add: denied_example_def eval_defs)

subsection \<open>Elapsed time\<close>

text \<open>
  C5, amended. In every state of a serial session (no start button clicked while a
  start is suspended), whatever happens next: if elapsed time advances, the status was
  Recording, what happened was a firing of a live interval, and the advance is one second;
  while the status is Paused elapsed time does not change, and no interval is live, so
  none fires between a pause and the following resume.
\<close>

theorem elapsed_advances_only_while_recording:
  assumes "serial s" and "step_serial s e = Some s'"
  shows "(duration s < duration s' \<longrightarrow>
            status s = Recording \<and> e \<in> Tick ` set (timers s) \<and>
            duration s' = Suc (duration s)) \<and>
         (status s = Paused \<longrightarrow> duration s' = duration s \<and> timers s = [])"
proof -
  have t: "tracked s" using assms(1) by (rule serial_tracked)
  have i: "inv s" using assms(1) by (simp add: serial_reachable reachable_inv)
  have st: "step s e = Some s'" using assms(2) by (rule step_serial_step)
  have p: "status s = Paused \<longrightarrow> timers s = [] \<and> pending s = []"
    using t by (cases "intervalRef s") (auto simp: tracked_def status_def split: if_splits)
  have r: "timers s \<noteq> [] \<longrightarrow> status s = Recording"
    using t by (cases "intervalRef s") (auto simp: tracked_def status_def)
  show ?thesis
  proof (cases e)
    case StartClick
    then have "duration s' = duration s"
      using st by (auto simp: startRecording_def split: if_splits)
    then show ?thesis using p by simp
  next
    case (Settle k out)
    then have f: "k < length (pending s) \<and> unchanged_or_started s s'"
      using st resume_fields [of k out s s'] by simp
    then have "status s \<noteq> Paused" using p by auto
    moreover have "\<not> duration s < duration s'" using f by (auto simp: unchanged_or_started_def)
    ultimately show ?thesis by simp
  next
    case PauseClick
    then have rec: "isRecording s" using st by (simp split: if_splits)
    have "duration s' = duration s"
      using pause_step_fields [OF i] st PauseClick by simp
    then show ?thesis using p by simp
  next
    case (StopClick d)
    then have rec: "isRecording s" and e: "s' = stopRequest d s"
      using st by (simp_all split: if_splits)
    have "duration s' = duration s"
      unfolding e by (rule stopRequest_duration [OF i rec])
    then show ?thesis using p by simp
  next
    case (Tick n)
    then have n: "n \<in> set (timers s)" and e: "s' = tick s"
      using st by (simp_all split: if_splits)
    then have "timers s \<noteq> []" by auto
    then have "status s = Recording" using r by simp
    then show ?thesis using n e Tick by (simp add: tick_def)
  next
    case (DataAvailable k d)
    then have "duration s' = duration s"
      using st by (auto simp: ondataavailable_def split: if_splits)
    then show ?thesis using p by simp
  next
    case (DownloadClick now)
    then have "duration s' = duration s"
      using st by (auto simp: downloadRecording_def split: if_splits option.splits)
    then show ?thesis using p by simp
  next
    case (SetCaptureMode m)
    then have "duration s' = duration s" using st by (auto split: if_splits)
    then show ?thesis using p by simp
  next
    case ToggleMic
    then have "duration s' = duration s" using st by (auto split: if_splits)
    then show ?thesis using p by simp
  next
    case (RecorderEnded k d)
    then have "duration s' = duration s"
      using st by (auto simp: recorderEnded_fields split: if_splits)
    then show ?thesis using p by simp
  qed
qed

text \<open>
  Instances: a tick in a recording session; a paused session, where no tick can fire
  and a resume is possible.
\<close>

theorem elapsed_advances_only_while_recording_witness:
  "serial recording_example \<and> status recording_example = Recording \<and>
   step_serial recording_example (Tick 2) = Some (tick recording_example) \<and>
   duration (tick recording_example) = Suc (duration recording_example) \<and>
   serial paused_example \<and> status paused_example = Paused \<and>
   step_serial paused_example (Tick 1) = None \<and>
   step_serial paused_example PauseClick \<noteq> None \<and>
   timers paused_example = []"
proof -
  have a: "step_serial recording_example (Tick 2) = Some (tick recording_example)"
    by (simp add: recording_example_eq step_serial_def)
  have b: "status recording_example = Recording" by (simp add: recording_example_eq status_def)
  have c: "status paused_example = Paused" by (simp add: paused_example_eq status_def)
  have d0: "step_serial paused_example PauseClick \<noteq> None"
    by (simp add: paused_example_eq eval_defs)
  then obtain s' where d: "step_serial paused_example PauseClick = Some s'" by blast
  have e: "step_serial paused_example (Tick 1) = None"
    by (simp add: paused_example_eq step_serial_def)
  have g: "timers paused_example = []"
    using elapsed_advances_only_while_recording [OF serial_paused_example d] c by simp
  have h: "duration (tick recording_example) = Suc (duration recording_example)"
    using elapsed_advances_only_while_recording [OF serial_recording_example a]
    by (simp add: tick_def)
  show ?thesis
    using a b c d0 e g h serial_recording_example serial_paused_example by blast
qed

text \<open>
  The claim as stated fails: in the camera session started twice, a pause cancels the
  tracked interval only; the other interval fires while the status is Paused and elapsed
  time advances.
\<close>

theorem untracked_tick_while_paused_counterexample:
  "status overlapping_paused_example = Paused \<and>
   map_option status (step overlapping_paused_example (Tick 1)) = Some Paused \<and>
   map_option duration (step overlapping_paused_example (Tick 1)) =
     Some (Suc (duration overlapping_paused_example))"
  by (simp add: overlapping_paused_example_def eval_defs)

subsection \<open>The recorded blob\<close>




subsection \<open>Start requests\<close>

text \<open>
  C7, amended. The component has no guard on a suspended start: while
  \<^verbatim>\<open>isRecording\<close> is false every click on the start button is accepted and issues
  one more acquisition request, beside those still pending.
\<close>

theorem start_request_never_refused:
  assumes "\<not> isRecording s"
  shows "step s StartClick = Some (startRecording s) \<and>
         length (pending (startRecording s)) = Suc (length (pending s)) \<and>
         take (length (pending s)) (pending (startRecording s)) = pending s"
  using assms by (simp add: startRecording_def)

text \<open>
  An instance: a second start while the first is suspended.
\<close>

theorem start_request_never_refused_witness:
  "\<not> isRecording (exec (initial True) [StartClick]) \<and>
   length (pending (exec (initial True) [StartClick])) = 1 \<and>
   length (pending (startRecording (exec (initial True) [StartClick]))) = 2"
proof -
  have h: "\<not> isRecording (exec (initial True) [StartClick])" by (simp add: eval_defs)
  have l: "length (pending (exec (initial True) [StartClick])) = 1" by (simp add: eval_defs)
  show ?thesis using h l start_request_never_refused [OF h] by simp
qed

text \<open>
  The claim as stated fails: in camera mode, after two clicks on the start button two
  acquisitions are in flight.
\<close>

theorem second_start_while_pending_counterexample:
  "pending (exec (initial True) [SetCaptureMode Camera, StartClick]) =
     [(Camera, True, AwaitCamera VideoFacingUser True)] \<and>
   pending (exec (initial True) [SetCaptureMode Camera, StartClick, StartClick]) =
     [(Camera, True, AwaitCamera VideoFacingUser True),
      (Camera, True, AwaitCamera VideoFacingUser True)]"
  by (simp add: eval_defs)

subsection \<open>Downloading\<close>

text \<open>
  C8. With a blob recorded, a download saves exactly the bytes of the blob under the
  dated name and shows a toast; nothing else changes, the blob stays, and a second
  download saves the same bytes again.
\<close>

theorem download_is_repeatable:
  assumes "recordedBlob s = Some b"
  shows "downloadRecording now s =
           s\<lparr> downloads := downloads s @ [(''recording-'' @ take 19 now @ ''.webm'', b)],
              toasts := toasts s @
                [Toast ''Download Started'' ''Your recording is being downloaded'' False] \<rparr> \<and>
         recordedBlob (downloadRecording now s) = Some b \<and>
         map snd (downloads (downloadRecording now' (downloadRecording now s))) =
           map snd (downloads s) @ [b, b] \<and>
         recordedBlob (downloadRecording now' (downloadRecording now s)) = Some b"
  using assms by (simp add: downloadRecording_def)

text \<open>
  An instance: two downloads of a stopped session.
\<close>

theorem download_is_repeatable_witness:
  "recordedBlob stopped_example = Some [1, 2, 3] \<and>
   downloads (downloadRecording ''2026-11-02T10:05:00.000Z''
       (downloadRecording ''2026-11-02T10:04:00.000Z'' stopped_example)) =
     [(''recording-2026-11-02T10:04:00.webm'', [1, 2, 3]),
      (''recording-2026-11-02T10:05:00.webm'', [1, 2, 3])] \<and>
   recordedBlob (downloadRecording ''2026-11-02T10:05:00.000Z''
       (downloadRecording ''2026-11-02T10:04:00.000Z'' stopped_example)) = Some [1, 2, 3]"
proof -
  have h: "recordedBlob stopped_example = Some [1, 2, 3]" by (simp add: stopped_example_eq)
  have d: "downloads stopped_example = []" by (simp add: stopped_example_eq)
  show ?thesis
    using h download_is_repeatable [OF h, of "''2026-11-02T10:04:00.000Z''"
        "''2026-11-02T10:05:00.000Z''"]
    by (simp add: downloadRecording_def d)
qed

subsection \<open>Chunks\<close>

text \<open>
  C9. In every reachable state no chunk of \<^verbatim>\<open>chunksRef\<close> is empty: data of size 0
  is dropped and leaves the state as it was, other data is appended at the end; it stays
  so after a stop; and the blob that \<^verbatim>\<open>onstop\<close> records, at a stop that stops the
  recorder as whenever it runs, is the concatenation of such chunks. In a serial session
  the blob after any stop is the concatenation of the chunks.
\<close>

theorem chunks_are_nonempty:
  assumes "reachable s"
  shows "(\<forall>c \<in> set (chunksRef s). c \<noteq> []) \<and>
         ondataavailable [] s = s \<and>
         (d \<noteq> [] \<longrightarrow> chunksRef (ondataavailable d s) = chunksRef s @ [d]) \<and>
         (isRecording s \<longrightarrow>
            (\<forall>c \<in> set (chunksRef (stopRequest d s)). c \<noteq> []) \<and>
            (currentRecorder s \<noteq> RInactive \<or> serial s \<longrightarrow>
               recordedBlob (stopRequest d s) = Some (concat (chunksRef (stopRequest d s))))) \<and>
         recordedBlob (onstop s) = Some (concat (chunksRef s)) \<and>
         chunksRef (onstop s) = chunksRef s"
proof -
  have i: "inv s" using assms by (rule reachable_inv)
  have 1: "\<forall>c \<in> set (chunksRef s). c \<noteq> []" using i by (simp add: inv_def)
  have 2: "isRecording s \<longrightarrow>
            (\<forall>c \<in> set (chunksRef (stopRequest d s)). c \<noteq> []) \<and>
            (currentRecorder s \<noteq> RInactive \<or> serial s \<longrightarrow>
               recordedBlob (stopRequest d s) = Some (concat (chunksRef (stopRequest d s))))"
  proof
    assume rec: "isRecording s"
    have "inv (stopRequest d s)" using i rec by (rule inv_stopRequest)
    then have a: "\<forall>c \<in> set (chunksRef (stopRequest d s)). c \<noteq> []" by (simp add: inv_def)
    have b: "currentRecorder s \<noteq> RInactive \<or> serial s \<longrightarrow>
        recordedBlob (stopRequest d s) = Some (concat (chunksRef (stopRequest d s)))"
    proof
      assume "currentRecorder s \<noteq> RInactive \<or> serial s"
      then show "recordedBlob (stopRequest d s) = Some (concat (chunksRef (stopRequest d s)))"
      proof
        assume c: "currentRecorder s \<noteq> RInactive"
        show ?thesis by (simp add: stopRequest_fields(3,4) [OF c])
      next
        assume "serial s"
        then show ?thesis using rec by (rule serial_stop_blob)
      qed
    qed
    show "(\<forall>c \<in> set (chunksRef (stopRequest d s)). c \<noteq> []) \<and>
            (currentRecorder s \<noteq> RInactive \<or> serial s \<longrightarrow>
               recordedBlob (stopRequest d s) = Some (concat (chunksRef (stopRequest d s))))"
      using a b by blast
  qed
  have 3: "recordedBlob (onstop s) = Some (concat (chunksRef s)) \<and>
      chunksRef (onstop s) = chunksRef s"
    by (simp add: onstop_def Let_def split: option.splits)
  have 4: "ondataavailable [] s = s \<and>
      (d \<noteq> [] \<longrightarrow> chunksRef (ondataavailable d s) = chunksRef s @ [d])"
    by (simp add: ondataavailable_def)
  show ?thesis using 1 2 3 4 by blast
qed

text \<open>
  An instance in a recording session.
\<close>

theorem chunks_are_nonempty_witness:
  "reachable recording_example \<and> chunksRef recording_example = [[1, 2]] \<and>
   ondataavailable [] recording_example = recording_example \<and>
   chunksRef (ondataavailable [7] recording_example) = [[1, 2], [7]] \<and>
   recordedBlob (stopRequest [] recording_example) = Some [1, 2]"
proof -
  have r: "reachable recording_example"
    by (rule serial_reachable [OF serial_recording_example])
  have c: "chunksRef recording_example = [[1, 2]]" by (simp add: recording_example_eq)
  have k: "isRecording recording_example" "currentRecorder recording_example \<noteq> RInactive"
    by (simp_all add: recording_example_eq currentRecorder_def recorderState_def)
  have q: "chunksRef (stopRequest [] recording_example) = [[1, 2]]"
    by (simp add: recording_example_eq eval_defs)
  have a: "ondataavailable [] recording_example = recording_example \<and>
      chunksRef (ondataavailable [7] recording_example) = [[1, 2], [7]]"
    using chunks_are_nonempty [OF r, of "[7]"] c by simp
  have b: "recordedBlob (stopRequest [] recording_example) = Some [1, 2]"
    using chunks_are_nonempty [OF r, of "[]"] k q by simp
  show ?thesis using r c a b by blast
qed

subsection \<open>The transcript\<close>

text \<open>
  C10. With an empty transcript, \<^verbatim>\<open>downloadTranscript\<close> saves one text file: the
  heading, the date, and the sample text, which is the text \<^verbatim>\<open>transcribeAudio\<close>
  resolves to for any blob. It shows a toast and changes nothing else; transcript, meeting
  points and the processing flag stay as they were.
\<close>

theorem empty_transcript_exports_sample:
  assumes "transcript s = []"
  shows "downloadTranscript loc now s =
           s\<lparr> textDownloads := textDownloads s @
                  [(''transcript-'' @ take 19 now @ ''.txt'',
                    ''Meeting Transcript'' @ [newline] @ ''Generated on: '' @ loc @
                    [newline, newline] @ sampleTranscript)],
              toasts := toasts s @
                [Toast ''Download Started'' ''Sample transcript file is being downloaded''
                   False] \<rparr> \<and>
         transcript (downloadTranscript loc now s) = transcript s \<and>
         meetingPoints (downloadTranscript loc now s) = meetingPoints s \<and>
         isProcessing (downloadTranscript loc now s) = isProcessing s \<and>
         length (textDownloads (downloadTranscript loc now s)) = Suc (length (textDownloads s)) \<and>
         sampleTranscript = transcribeAudio b"
  using assms
  by (simp add: downloadTranscript_def transcriptFile_def sampleTranscript_def
      transcribeAudio_def)

text \<open>
  An instance at the initial state.
\<close>

theorem empty_transcript_exports_sample_witness:
  "transcript initialT = [] \<and>
   textDownloads (downloadTranscript ''11/2/2026, 10:04:00 AM'' ''2026-11-02T10:04:00.000Z'' initialT) =
     [(''transcript-2026-11-02T10:04:00.txt'',
       ''Meeting Transcript'' @ [newline] @ ''Generated on: 11/2/2026, 10:04:00 AM'' @
       [newline, newline] @ sampleTranscript)] \<and>
   transcript (downloadTranscript ''11/2/2026, 10:04:00 AM'' ''2026-11-02T10:04:00.000Z'' initialT) = []"
proof -
  have h: "transcript initialT = []"
    by (simp add: initialT_def studio.defs studioT.defs initial_def)
  have d: "textDownloads initialT = []"
    by (simp add: initialT_def studio.defs studioT.defs initial_def)
  show ?thesis
    using h empty_transcript_exports_sample [OF h, of "''11/2/2026, 10:04:00 AM''"
        "''2026-11-02T10:04:00.000Z''"]
    by (simp add: d)
qed

end
